theory Spec2Isabelle
  imports Main "HOL-Library.Word" "HOL-Library.Sublist"
begin

section \<open>JavaScript strings\<close>

text \<open>
  A JavaScript string is a sequence of 16-bit code units. The regular expressions of the
  sources carry no \<^verbatim>\<open>u\<close> flag, so they too work on code units. \<open>ascii\<close> writes an
  ASCII literal as such a sequence.
\<close>

type_synonym jschar = "16 word"
type_synonym jsstring = "jschar list"

definition ascii :: "string \<Rightarrow> jsstring" where
  "ascii s = map of_char s"

text \<open>
  \<^verbatim>\<open>s.split('.')\<close>: the pieces of \<open>s\<close> between the dots, in order. The empty string
  gives one empty piece, and a leading, trailing or doubled dot gives an empty piece.
  A character other than the dot goes to the front of the first piece of the rest; the
  rest always has a first piece, so the \<open>[]\<close> case is never taken.
\<close>

fun split_dot :: "jsstring \<Rightarrow> jsstring list" where
  "split_dot [] = [[]]"
| "split_dot (c # cs) =
     (if c = of_char CHR ''.'' then [] # split_dot cs
      else (case split_dot cs of
              [] \<Rightarrow> [[c]]
            | seg # segs \<Rightarrow> (c # seg) # segs))"

text \<open>\<^verbatim>\<open>xs.join(sep)\<close> on an array of strings.\<close>

fun join :: "jsstring \<Rightarrow> jsstring list \<Rightarrow> jsstring" where
  "join sep [] = []"
| "join sep [x] = x"
| "join sep (x # y # ys) = x @ sep @ join sep (y # ys)"


section \<open>GlobMatcher.ts\<close>

text \<open>
  The \<^verbatim>\<open>for\<close> loop of \<open>matchSegments\<close> that runs when the name is exhausted: every
  pattern segment from index \<open>i\<close> on must be \<^verbatim>\<open>**\<close>.
\<close>

function matchSegments_rest :: "jsstring list \<Rightarrow> nat \<Rightarrow> bool" where
  "matchSegments_rest pp i =
     (if i < length pp
      then (if pp ! i \<noteq> ascii ''**'' then False else matchSegments_rest pp (i + 1))
      else True)"
  by pat_completeness auto
termination
  by (relation "measure (\<lambda>(pp, i). length pp - i)") auto

text \<open>
  \<open>matchSegments\<close> walks the two segment arrays by index. It is private to the module
  and \<open>matchGlob\<close> starts it at \<open>(0, 0)\<close>; each call raises an index by one only while
  it is below the length, so an index never exceeds the length of its array. The fourth
  branch gives the function a value outside that range, where the source is never run.
\<close>

function matchSegments :: "jsstring list \<Rightarrow> nat \<Rightarrow> jsstring list \<Rightarrow> nat \<Rightarrow> bool" where
  "matchSegments pp pi np ni =
     (if pi = length pp \<and> ni = length np then True
      else if pi = length pp then False
      else if ni = length np then matchSegments_rest pp pi
      else if length pp < pi \<or> length np < ni then False
      else (let segment = pp ! pi in
        if segment = ascii ''**''
        then matchSegments pp (pi + 1) np ni \<or> matchSegments pp pi np (ni + 1)
        else if segment = ascii ''*'' \<or> segment = np ! ni
        then matchSegments pp (pi + 1) np (ni + 1)
        else False))"
  by pat_completeness auto
termination
  by (relation "measure (\<lambda>(pp, pi, np, ni). (length pp - pi) + (length np - ni))") auto

definition matchGlob :: "jsstring \<Rightarrow> jsstring \<Rightarrow> bool" where
  "matchGlob pattern name = matchSegments (split_dot pattern) 0 (split_dot name) 0"

text \<open>
  The matching rules as the specification words them, on the two segment sequences that
  remain to be consumed. \<open>matchSegments\<close> is compared with this definition below.
\<close>

fun spec_matches :: "jsstring list \<Rightarrow> jsstring list \<Rightarrow> bool" where
  "spec_matches [] [] = True"
| "spec_matches [] (n # ns) = False"
| "spec_matches (p # ps) [] = list_all (\<lambda>q. q = ascii ''**'') (p # ps)"
| "spec_matches (p # ps) (n # ns) =
     (if p = ascii ''**'' then spec_matches ps (n # ns) \<or> spec_matches (p # ps) ns
      else if p = ascii ''*'' then spec_matches ps ns
      else p = n \<and> spec_matches ps ns)"

section \<open>types.ts\<close>

text \<open>
  \<^verbatim>\<open>type CacheDirective = 'no-store' | 'immutable'\<close>; \<open>directive_text\<close> is the string
  that a directive is at run time.
\<close>

datatype CacheDirective = NoStore | Immutable

fun directive_text :: "CacheDirective \<Rightarrow> jsstring" where
  "directive_text NoStore = ascii ''no-store''"
| "directive_text Immutable = ascii ''immutable''"

text \<open>
  \<open>ResolvedPolicy\<close> has the optional fields \<open>cacheControl\<close> and \<open>invalidates\<close>;
  \<open>SyncPolicy\<close> has the same two and the required \<open>match\<close>. An optional field that is
  \<^verbatim>\<open>undefined\<close> is \<open>None\<close>.
\<close>

record ResolvedPolicy =
  cacheControl :: "CacheDirective option"
  invalidates :: "jsstring list option"

record SyncPolicy = ResolvedPolicy +
  match :: jsstring

text \<open>
  The values a configuration field can hold at run time. The static types are erased,
  and the validator is written for callers that bypass them (the tests pass
  \<^verbatim>\<open>'max-age=300' as any\<close> and a string for \<open>invalidates\<close>), so it is modelled on
  these values: \<^verbatim>\<open>undefined\<close>, \<^verbatim>\<open>null\<close>, booleans, integer numbers, strings,
  and arrays of such values.
\<close>

datatype jsval =
  JUndefined | JNull | JBool bool | JNum int | JStr jsstring | JArr "jsval list"

text \<open>Truthiness (\<^verbatim>\<open>!v\<close> is its negation) and \<^verbatim>\<open>typeof v === 'string'\<close>.\<close>

fun truthy :: "jsval \<Rightarrow> bool" where
  "truthy JUndefined = False"
| "truthy JNull = False"
| "truthy (JBool b) = b"
| "truthy (JNum n) = (n \<noteq> 0)"
| "truthy (JStr s) = (s \<noteq> [])"
| "truthy (JArr xs) = True"

fun typeof_string :: "jsval \<Rightarrow> bool" where
  "typeof_string (JStr s) = True"
| "typeof_string v = False"

text \<open>A policy and the defaults object as the validator receives them.\<close>

record RawPolicy =
  raw_match :: jsval
  raw_cacheControl :: jsval
  raw_invalidates :: jsval

record RawDefaults =
  raw_default_cacheControl :: jsval


section \<open>PolicyValidator.ts\<close>

definition VALID_DIRECTIVES :: "jsval set" where
  "VALID_DIRECTIVES = {JStr (ascii ''no-store''), JStr (ascii ''immutable'')}"

text \<open>The character class \<^verbatim>\<open>[a-zA-Z0-9_-]\<close>.\<close>

definition segment_char :: "jschar \<Rightarrow> bool" where
  "segment_char c =
     ((of_char CHR ''a'' \<le> c \<and> c \<le> of_char CHR ''z'')
    \<or> (of_char CHR ''A'' \<le> c \<and> c \<le> of_char CHR ''Z'')
    \<or> (of_char CHR ''0'' \<le> c \<and> c \<le> of_char CHR ''9'')
    \<or> c = of_char CHR ''_'' \<or> c = of_char CHR ''-'')"

text \<open>
  \<^verbatim>\<open>VALID_SEGMENT.test(seg)\<close> for \<^verbatim>\<open>/^(\*{1,2}|[a-zA-Z0-9_-]+)$/\<close>: the whole
  segment is one or two asterisks, or one or more characters of the class.
\<close>

definition VALID_SEGMENT :: "jsstring \<Rightarrow> bool" where
  "VALID_SEGMENT seg =
     (seg = ascii ''*'' \<or> seg = ascii ''**'' \<or> (seg \<noteq> [] \<and> list_all segment_char seg))"

text \<open>
  The errors thrown at construction. Each carries the index of the policy, which the
  message prints together with its \<open>match\<close>, and the value at fault where the message
  prints one.
\<close>

datatype config_error =
    MatchNotNonEmptyString nat
  | InvalidSegment nat jsstring
  | InvalidCacheControl nat jsval
  | InvalidatesNotArray nat
  | InvalidatesEntryNotNonEmptyString nat
  | InvalidDefaultCacheControl jsval

text \<open>The body of the loop of \<open>validatePolicies\<close>, for the policy \<open>p\<close> at index \<open>i\<close>.\<close>

definition validatePolicy :: "nat \<Rightarrow> RawPolicy \<Rightarrow> config_error + unit" where
  "validatePolicy i p =
     (if \<not> truthy (raw_match p) \<or> \<not> typeof_string (raw_match p)
      then Inl (MatchNotNonEmptyString i)
      else
        (case find (\<lambda>seg. \<not> VALID_SEGMENT seg)
                (case raw_match p of JStr m \<Rightarrow> split_dot m | _ \<Rightarrow> []) of
           Some seg \<Rightarrow> Inl (InvalidSegment i seg)
         | None \<Rightarrow>
            if raw_cacheControl p \<noteq> JUndefined \<and> raw_cacheControl p \<notin> VALID_DIRECTIVES
            then Inl (InvalidCacheControl i (raw_cacheControl p))
            else if raw_invalidates p \<noteq> JUndefined
            then
              (case raw_invalidates p of
                 JArr entries \<Rightarrow>
                   if list_ex (\<lambda>pattern. \<not> truthy pattern \<or> \<not> typeof_string pattern) entries
                   then Inl (InvalidatesEntryNotNonEmptyString i)
                   else Inr ()
               | _ \<Rightarrow> Inl (InvalidatesNotArray i))
            else Inr ()))"

fun validatePolicies_from :: "nat \<Rightarrow> RawPolicy list \<Rightarrow> config_error + unit" where
  "validatePolicies_from i [] = Inr ()"
| "validatePolicies_from i (p # ps) =
     (case validatePolicy i p of
        Inl e \<Rightarrow> Inl e
      | Inr u \<Rightarrow> validatePolicies_from (i + 1) ps)"

definition validatePolicies :: "RawPolicy list \<Rightarrow> config_error + unit" where
  "validatePolicies policies = validatePolicies_from 0 policies"

text \<open>\<open>defaults\<close> is optional: \<open>None\<close> is a call without it.\<close>

definition validateDefaults :: "RawDefaults option \<Rightarrow> config_error + unit" where
  "validateDefaults defaults =
     (case defaults of
        None \<Rightarrow> Inr ()
      | Some d \<Rightarrow>
          if raw_default_cacheControl d \<noteq> JUndefined
             \<and> raw_default_cacheControl d \<notin> VALID_DIRECTIVES
          then Inl (InvalidDefaultCacheControl (raw_default_cacheControl d))
          else Inr ())"


section \<open>PolicyEngine.ts\<close>

text \<open>
  After validation the engine reads the configuration at its declared types. These
  functions read a run-time value at the type \<open>SyncPolicy\<close> declares for it, and
  \<open>raw_policy\<close> writes a typed policy back as run-time values; on a configuration that
  passed validation the reading loses nothing (\<open>validatePolicy_typed\<close> below).
\<close>

fun as_directive :: "jsval \<Rightarrow> CacheDirective option" where
  "as_directive (JStr s) =
     (if s = ascii ''no-store'' then Some NoStore
      else if s = ascii ''immutable'' then Some Immutable
      else None)"
| "as_directive v = None"

fun as_string :: "jsval \<Rightarrow> jsstring" where
  "as_string (JStr s) = s"
| "as_string v = []"

fun as_strings :: "jsval \<Rightarrow> jsstring list option" where
  "as_strings (JArr entries) = Some (map as_string entries)"
| "as_strings v = None"

definition as_SyncPolicy :: "RawPolicy \<Rightarrow> SyncPolicy" where
  "as_SyncPolicy p =
     \<lparr>cacheControl = as_directive (raw_cacheControl p),
      invalidates = as_strings (raw_invalidates p),
      match = as_string (raw_match p)\<rparr>"

definition raw_directive :: "CacheDirective option \<Rightarrow> jsval" where
  "raw_directive d = (case d of None \<Rightarrow> JUndefined | Some x \<Rightarrow> JStr (directive_text x))"

definition raw_policy :: "SyncPolicy \<Rightarrow> RawPolicy" where
  "raw_policy p =
     \<lparr>raw_match = JStr (match p),
      raw_cacheControl = raw_directive (cacheControl p),
      raw_invalidates = (case invalidates p of None \<Rightarrow> JUndefined | Some xs \<Rightarrow> JArr (map JStr xs))\<rparr>"

text \<open>
  Resolved policies are frozen objects, and the engine hands out references to them. The
  store holds the objects in the order of their allocation: an address is an index into
  it, a new object goes to the end, and no object in it is ever written again.
  \<^verbatim>\<open>null\<close> is \<open>None\<close>.
\<close>

type_synonym addr = nat
type_synonym store = "ResolvedPolicy list"

definition freeze_new :: "store \<Rightarrow> ResolvedPolicy \<Rightarrow> addr \<times> store" where
  "freeze_new h obj = (length h, h @ [obj])"

definition policy_at :: "store \<Rightarrow> addr option \<Rightarrow> ResolvedPolicy option" where
  "policy_at h r = (case r of None \<Rightarrow> None | Some a \<Rightarrow> Some (h ! a))"

text \<open>
  The engine: its rule list and default, fixed at construction, and the cache, a
  \<^verbatim>\<open>Map\<close> from tool name to a reference or \<^verbatim>\<open>null\<close>.
\<close>

record PolicyEngine =
  policies :: "SyncPolicy list"
  defaultCacheControl :: "CacheDirective option"
  cache :: "jsstring \<rightharpoonup> addr option"

definition PolicyEngine_new ::
  "RawPolicy list \<Rightarrow> RawDefaults option \<Rightarrow> config_error + PolicyEngine" where
  "PolicyEngine_new rawPolicies defaults =
     (case validatePolicies rawPolicies of
        Inl e \<Rightarrow> Inl e
      | Inr u \<Rightarrow>
         (case validateDefaults defaults of
            Inl e \<Rightarrow> Inl e
          | Inr u' \<Rightarrow>
              Inr \<lparr>policies = map as_SyncPolicy rawPolicies,
                   defaultCacheControl =
                     (case defaults of
                        None \<Rightarrow> None
                      | Some d \<Rightarrow> as_directive (raw_default_cacheControl d)),
                   cache = Map.empty\<rparr>))"

text \<open>
  The loop of \<open>resolveUncached\<close> over the rules that remain. Both directives are
  non-empty strings, so \<^verbatim>\<open>!cacheControl\<close> holds exactly when it is undefined.
\<close>

fun resolveUncached_scan ::
  "SyncPolicy list \<Rightarrow> CacheDirective option \<Rightarrow> jsstring \<Rightarrow> store \<Rightarrow> addr option \<times> store" where
  "resolveUncached_scan [] dflt toolName h =
     (case dflt of
        Some d \<Rightarrow>
          (let (a, h') = freeze_new h \<lparr>cacheControl = Some d, invalidates = None\<rparr>
           in (Some a, h'))
      | None \<Rightarrow> (None, h))"
| "resolveUncached_scan (policy # rest) dflt toolName h =
     (if matchGlob (match policy) toolName
      then
        (let cc = (case cacheControl policy of Some d \<Rightarrow> Some d | None \<Rightarrow> dflt);
             inv = (case invalidates policy of
                      None \<Rightarrow> None
                    | Some xs \<Rightarrow> if length xs \<noteq> 0 then Some xs else None)
         in if cc = None \<and> inv = None then (None, h)
            else (let (a, h') = freeze_new h \<lparr>cacheControl = cc, invalidates = inv\<rparr>
                  in (Some a, h')))
      else resolveUncached_scan rest dflt toolName h)"

definition resolveUncached ::
  "PolicyEngine \<Rightarrow> store \<Rightarrow> jsstring \<Rightarrow> addr option \<times> store" where
  "resolveUncached e h toolName =
     resolveUncached_scan (policies e) (defaultCacheControl e) toolName h"

text \<open>
  \<open>resolve\<close> returns the reference (or \<^verbatim>\<open>null\<close>), the engine with its cache after
  the call, and the store after the call.
\<close>

definition resolve ::
  "PolicyEngine \<Rightarrow> store \<Rightarrow> jsstring \<Rightarrow> addr option \<times> PolicyEngine \<times> store" where
  "resolve e h toolName =
     (case cache e toolName of
        Some cached \<Rightarrow> (cached, e, h)
      | None \<Rightarrow>
          (let (result, h') = resolveUncached e h toolName
           in (result, e\<lparr>cache := (cache e)(toolName \<mapsto> result)\<rparr>, h')))"

text \<open>The engine and the store after resolving a list of names one after the other.\<close>

fun resolve_each :: "PolicyEngine \<Rightarrow> store \<Rightarrow> jsstring list \<Rightarrow> PolicyEngine \<times> store" where
  "resolve_each e h [] = (e, h)"
| "resolve_each e h (n # ns) =
     (case resolve e h n of (r, e', h') \<Rightarrow> resolve_each e' h' ns)"

text \<open>
  The resolution rule as the specification words it: the first rule, in declared
  order, whose pattern matches decides; its directive or else the default's, its
  invalidation list if non-empty; nothing if both are absent; and the default alone
  when no rule matches.
\<close>

definition spec_resolution ::
  "SyncPolicy list \<Rightarrow> CacheDirective option \<Rightarrow> jsstring \<Rightarrow> ResolvedPolicy option" where
  "spec_resolution rules dflt name =
     (case find (\<lambda>rule. matchGlob (match rule) name) rules of
        None \<Rightarrow>
          (case dflt of
             None \<Rightarrow> None
           | Some d \<Rightarrow> Some \<lparr>cacheControl = Some d, invalidates = None\<rparr>)
      | Some rule \<Rightarrow>
          (let directive = (if cacheControl rule \<noteq> None then cacheControl rule else dflt);
               invalidatesPatterns =
                 (if invalidates rule \<noteq> None \<and> invalidates rule \<noteq> Some []
                  then invalidates rule else None)
           in if directive = None \<and> invalidatesPatterns = None then None
              else Some \<lparr>cacheControl = directive, invalidates = invalidatesPatterns\<rparr>))"

text \<open>
  The invariant of the cache: an entry for a name is what the resolution rule gives for
  that name, and a reference in it points into the store.
\<close>

definition cache_sound :: "PolicyEngine \<Rightarrow> store \<Rightarrow> bool" where
  "cache_sound e h =
     (\<forall>n r. cache e n = Some r \<longrightarrow>
        policy_at h r = spec_resolution (policies e) (defaultCacheControl e) n
        \<and> (\<forall>a. r = Some a \<longrightarrow> a < length h))"

section \<open>CausalEngine.ts\<close>

definition resolveInvalidations :: "ResolvedPolicy option \<Rightarrow> bool \<Rightarrow> jsstring list" where
  "resolveInvalidations policy isError =
     (if isError then []
      else (case policy of
              None \<Rightarrow> []
            | Some p \<Rightarrow> (case invalidates p of None \<Rightarrow> [] | Some patterns \<Rightarrow> patterns)))"


section \<open>Regular expressions\<close>

text \<open>
  The fragment of JavaScript regular expressions that \<open>CACHE_CONTROL_PATTERN\<close> is
  written in: a sequence of atoms, each a literal character, one character of a class,
  a greedy star of a class, or the end-of-input assertion \<^verbatim>\<open>$\<close> (the pattern has no
  \<^verbatim>\<open>m\<close> flag).
\<close>

datatype cclass = Whitespace | WordChar | NotRBracket

datatype rx_atom = Chr jschar | Cls cclass | Star cclass | Eos

text \<open>
  \<^verbatim>\<open>\s\<close> is the white space and line terminator code points of ECMAScript:
  TAB, LF, VT, FF, CR, SP, NBSP, U+1680, U+2000 to U+200A, U+2028, U+2029, U+202F,
  U+205F, U+3000 and U+FEFF. \<^verbatim>\<open>\w\<close> is \<^verbatim>\<open>[A-Za-z0-9_]\<close>.
\<close>

definition js_whitespace :: "jschar \<Rightarrow> bool" where
  "js_whitespace c =
     ((0x09 \<le> c \<and> c \<le> 0x0D) \<or> c = 0x20 \<or> c = 0xA0 \<or> c = 0x1680
    \<or> (0x2000 \<le> c \<and> c \<le> 0x200A) \<or> c = 0x2028 \<or> c = 0x2029 \<or> c = 0x202F
    \<or> c = 0x205F \<or> c = 0x3000 \<or> c = 0xFEFF)"

definition js_word_char :: "jschar \<Rightarrow> bool" where
  "js_word_char c =
     ((of_char CHR ''a'' \<le> c \<and> c \<le> of_char CHR ''z'')
    \<or> (of_char CHR ''A'' \<le> c \<and> c \<le> of_char CHR ''Z'')
    \<or> (of_char CHR ''0'' \<le> c \<and> c \<le> of_char CHR ''9'')
    \<or> c = of_char CHR ''_'')"

fun in_class :: "cclass \<Rightarrow> jschar \<Rightarrow> bool" where
  "in_class Whitespace c = js_whitespace c"
| "in_class WordChar c = js_word_char c"
| "in_class NotRBracket c = (c \<noteq> of_char CHR '']'')"

text \<open>
  Matching at the start of the input, by backtracking: the result is the input left
  after the first match found, or \<open>None\<close> when every alternative fails. A star takes
  one more character first and gives it back only when the rest of the pattern fails.
\<close>

fun rx_match :: "rx_atom list \<Rightarrow> jsstring \<Rightarrow> jsstring option" where
  "rx_match [] s = Some s"
| "rx_match (Chr c # r) [] = None"
| "rx_match (Chr c # r) (x # xs) = (if x = c then rx_match r xs else None)"
| "rx_match (Cls k # r) [] = None"
| "rx_match (Cls k # r) (x # xs) = (if in_class k x then rx_match r xs else None)"
| "rx_match (Star k # r) [] = rx_match r []"
| "rx_match (Star k # r) (x # xs) =
     (if in_class k x
      then (case rx_match (Star k # r) xs of
              Some rest \<Rightarrow> Some rest
            | None \<Rightarrow> rx_match r (x # xs))
      else rx_match r (x # xs))"
| "rx_match (Eos # r) s = (if s = [] then rx_match r s else None)"

text \<open>
  \<^verbatim>\<open>s.replace(r, rep)\<close> for a regular expression without the \<^verbatim>\<open>g\<close> flag and a
  replacement without \<^verbatim>\<open>$\<close>: the match is tried at index 0, 1, ... up to the
  length of \<open>s\<close>, and the first one found is replaced.
\<close>

fun replace_first :: "rx_atom list \<Rightarrow> jsstring \<Rightarrow> jsstring \<Rightarrow> jsstring" where
  "replace_first r rep [] =
     (case rx_match r [] of Some rest \<Rightarrow> rep @ rest | None \<Rightarrow> [])"
| "replace_first r rep (c # cs) =
     (case rx_match r (c # cs) of
        Some rest \<Rightarrow> rep @ rest
      | None \<Rightarrow> c # replace_first r rep cs)"


section \<open>DescriptionDecorator.ts\<close>

text \<open>\<^verbatim>\<open>/\s*\[Cache-Control:\s*\w[^\]]*\]$/\<close>\<close>

definition CACHE_CONTROL_PATTERN :: "rx_atom list" where
  "CACHE_CONTROL_PATTERN =
     [Star Whitespace] @ map Chr (ascii ''[Cache-Control:'')
     @ [Star Whitespace, Cls WordChar, Star NotRBracket, Chr (of_char CHR '']''), Eos]"

text \<open>
  The strings the pattern accepts after its leading \<^verbatim>\<open>\s*\<close>, written out:
  \<^verbatim>\<open>[Cache-Control:\<close>, white space, one word character, characters other than
  \<^verbatim>\<open>]\<close>, and a closing \<^verbatim>\<open>]\<close>. This describes the pattern for the statements below;
  the code is \<open>rx_match CACHE_CONTROL_PATTERN\<close>.
\<close>

definition cache_control_annotation :: "jsstring \<Rightarrow> bool" where
  "cache_control_annotation s =
     (\<exists>ws w body.
        s = ascii ''[Cache-Control:'' @ ws @ w # body @ ascii '']''
        \<and> list_all js_whitespace ws \<and> js_word_char w
        \<and> of_char CHR '']'' \<notin> set body)"

text \<open>
  A tool definition. \<open>inputSchema\<close> and \<open>annotations\<close> are opaque to this package; their
  type is left open.
\<close>

record 'j McpToolDef =
  name :: jsstring
  description :: "jsstring option"
  inputSchema :: 'j
  annotations :: "'j option"

definition decorateDescription ::
  "'j McpToolDef \<Rightarrow> ResolvedPolicy option \<Rightarrow> 'j McpToolDef" where
  "decorateDescription tool policy =
     (case (case policy of None \<Rightarrow> None | Some p \<Rightarrow> cacheControl p) of
        None \<Rightarrow> tool
      | Some directive \<Rightarrow>
          (let suffix = ascii '' [Cache-Control: '' @ directive_text directive @ ascii '']'';
               base = replace_first CACHE_CONTROL_PATTERN []
                        (case description tool of None \<Rightarrow> [] | Some d \<Rightarrow> d);
               description' = base @ suffix
           in tool\<lparr>description := Some description'\<rparr>))"


section \<open>ResponseDecorator.ts\<close>

text \<open>
  A content block has a \<open>type\<close> and any further keys; a call result has its \<open>content\<close>
  and the optional \<open>isError\<close>, and whatever else the result carries is the record's
  extension, which the spread copies.
\<close>

record ContentBlock =
  type :: jsstring
  props :: "(jsstring \<times> jsval) list"

record McpCallResult =
  content :: "ContentBlock list"
  isError :: "bool option"

text \<open>The dash of the notice is U+2014.\<close>

definition EM_DASH :: jschar where
  "EM_DASH = 0x2014"

definition decorateResponse ::
  "'a McpCallResult_scheme \<Rightarrow> jsstring list \<Rightarrow> jsstring \<Rightarrow> 'a McpCallResult_scheme" where
  "decorateResponse result patterns causedBy =
     (let domains = join (ascii '', '') patterns;
          systemBlock =
            \<lparr>type = ascii ''text'',
             props = [(ascii ''text'',
               JStr (ascii ''[System: Cache invalidated for '' @ domains @ ascii '' ''
                     @ [EM_DASH] @ ascii '' caused by '' @ causedBy @ ascii '']''))]\<rparr>
      in result\<lparr>content := systemBlock # content result\<rparr>)"


section \<open>ServerWrapper.ts\<close>

text \<open>
  What the two request handlers do with the engine, given what the upstream returned:
  the tool list for \<^verbatim>\<open>tools/list\<close>, and the call result for \<^verbatim>\<open>tools/call\<close>.
\<close>

fun listTools_handler ::
  "PolicyEngine \<Rightarrow> store \<Rightarrow> 'j McpToolDef list \<Rightarrow> 'j McpToolDef list \<times> PolicyEngine \<times> store" where
  "listTools_handler e h [] = ([], e, h)"
| "listTools_handler e h (tool # tools) =
     (case resolve e h (name tool) of (r, e', h') \<Rightarrow>
        (case listTools_handler e' h' tools of (ts, e'', h'') \<Rightarrow>
           (decorateDescription tool (policy_at h' r) # ts, e'', h'')))"

definition callTool_handler ::
  "PolicyEngine \<Rightarrow> store \<Rightarrow> jsstring \<Rightarrow> 'a McpCallResult_scheme
     \<Rightarrow> 'a McpCallResult_scheme \<times> PolicyEngine \<times> store" where
  "callTool_handler e h toolName result =
     (case resolve e h toolName of (r, e', h') \<Rightarrow>
        (let policy = policy_at h' r;
             invalidations =
               resolveInvalidations policy (case isError result of None \<Rightarrow> False | Some b \<Rightarrow> b)
         in if length invalidations > 0
            then (decorateResponse result invalidations toolName, e', h')
            else (result, e', h')))"

section \<open>Properties\<close>

subsection \<open>GlobMatcher\<close>

declare matchSegments.simps [simp del] matchSegments_rest.simps [simp del]

lemma matchSegments_rest_eq:
  "matchSegments_rest pp i = list_all (\<lambda>q. q = ascii ''**'') (drop i pp)"
proof (induction pp i rule: matchSegments_rest.induct)
  case (1 pp i)
  show ?case
  proof (cases "i < length pp")
    case True
    then have d: "drop i pp = pp ! i # drop (Suc i) pp"
      by (simp add: Cons_nth_drop_Suc)
    show ?thesis
      using True 1 by (subst matchSegments_rest.simps) (auto simp: d)
  next
    case False
    then show ?thesis by (subst matchSegments_rest.simps) simp
  qed
qed

lemma spec_matches_Nil2: "spec_matches ps [] = list_all (\<lambda>q. q = ascii ''**'') ps"
  by (cases ps) simp_all

lemma matchSegments_eq_spec:
  "pi \<le> length pp \<Longrightarrow> ni \<le> length np \<Longrightarrow>
   matchSegments pp pi np ni = spec_matches (drop pi pp) (drop ni np)"
proof (induction pp pi np ni rule: matchSegments.induct)
  case (1 pp pi np ni)
  note ple = \<open>pi \<le> length pp\<close> and nle = \<open>ni \<le> length np\<close>
  show ?case
  proof (cases "pi = length pp")
    case True
    show ?thesis
    proof (cases "ni = length np")
      case True
      with \<open>pi = length pp\<close> show ?thesis
        by (subst matchSegments.simps) simp
    next
      case False
      with nle have "ni < length np" by simp
      then have "drop ni np = np ! ni # drop (Suc ni) np"
        by (simp add: Cons_nth_drop_Suc)
      with \<open>pi = length pp\<close> False show ?thesis
        by (subst matchSegments.simps) simp
    qed
  next
    case pF: False
    with ple have plt: "pi < length pp" by simp
    then have dp: "drop pi pp = pp ! pi # drop (Suc pi) pp"
      by (simp add: Cons_nth_drop_Suc)
    show ?thesis
    proof (cases "ni = length np")
      case True
      then show ?thesis using pF
        by (subst matchSegments.simps) (simp add: matchSegments_rest_eq spec_matches_Nil2)
    next
      case nF: False
      with nle have nlt: "ni < length np" by simp
      then have dn: "drop ni np = np ! ni # drop (Suc ni) np"
        by (simp add: Cons_nth_drop_Suc)
      have g: "\<not> (length pp < pi \<or> length np < ni)" using plt nlt by simp
      have unfold: "matchSegments pp pi np ni =
          (if pp ! pi = ascii ''**''
           then matchSegments pp (pi + 1) np ni \<or> matchSegments pp pi np (ni + 1)
           else if pp ! pi = ascii ''*'' \<or> pp ! pi = np ! ni
           then matchSegments pp (pi + 1) np (ni + 1)
           else False)"
        using pF nF g by (subst matchSegments.simps) (simp add: Let_def)
      have spec: "spec_matches (drop pi pp) (drop ni np) =
          (if pp ! pi = ascii ''**''
           then spec_matches (drop (Suc pi) pp) (drop ni np) \<or> spec_matches (drop pi pp) (drop (Suc ni) np)
           else if pp ! pi = ascii ''*'' then spec_matches (drop (Suc pi) pp) (drop (Suc ni) np)
           else pp ! pi = np ! ni \<and> spec_matches (drop (Suc pi) pp) (drop (Suc ni) np))"
      proof -
        have "spec_matches (pp ! pi # drop (Suc pi) pp) (np ! ni # drop (Suc ni) np) =
          (if pp ! pi = ascii ''**''
           then spec_matches (drop (Suc pi) pp) (np ! ni # drop (Suc ni) np)
             \<or> spec_matches (pp ! pi # drop (Suc pi) pp) (drop (Suc ni) np)
           else if pp ! pi = ascii ''*'' then spec_matches (drop (Suc pi) pp) (drop (Suc ni) np)
           else pp ! pi = np ! ni \<and> spec_matches (drop (Suc pi) pp) (drop (Suc ni) np))"
          by (rule spec_matches.simps(4))
        then show ?thesis
          by (simp only: dp [symmetric] dn [symmetric])
      qed
      show ?thesis
      proof (cases "pp ! pi = ascii ''**''")
        case True
        have a: "matchSegments pp (pi + 1) np ni = spec_matches (drop (pi + 1) pp) (drop ni np)"
          using "1.IH"(1)[OF _ _ _ g refl True] pF nF plt nlt by simp
        have b: "matchSegments pp pi np (ni + 1) = spec_matches (drop pi pp) (drop (ni + 1) np)"
          using "1.IH"(2)[OF _ _ _ g refl True] pF nF plt nlt by simp
        show ?thesis
          using True a b by (simp add: unfold spec)
      next
        case False
        show ?thesis
        proof (cases "pp ! pi = ascii ''*'' \<or> pp ! pi = np ! ni")
          case True
          have c: "matchSegments pp (pi + 1) np (ni + 1) = spec_matches (drop (pi + 1) pp) (drop (ni + 1) np)"
            using "1.IH"(3)[OF _ _ _ g refl False True] pF nF plt nlt by simp
          show ?thesis
            using False True c by (auto simp add: unfold spec)
        next
          case F2: False
          show ?thesis
            using False F2 by (simp add: unfold spec)
        qed
      qed
    qed
  qed
qed

lemma matchGlob_spec:
  "matchGlob pattern nm = spec_matches (split_dot pattern) (split_dot nm)"
  by (simp add: matchGlob_def matchSegments_eq_spec)

lemma matchSegments_start: "matchSegments ps 0 ns 0 = spec_matches ps ns"
  by (simp add: matchSegments_eq_spec)

lemma spec_matches_globstar:
  "spec_matches (ascii ''**'' # ps) ns \<longleftrightarrow> (\<exists>k\<le>length ns. spec_matches ps (drop k ns))"
proof (induction ns)
  case Nil
  show ?case by (simp add: spec_matches_Nil2)
next
  case (Cons n ns)
  have "(\<exists>k\<le>length (n # ns). spec_matches ps (drop k (n # ns))) \<longleftrightarrow>
        spec_matches ps (n # ns) \<or> (\<exists>k\<le>length ns. spec_matches ps (drop k ns))"
  proof
    assume "\<exists>k\<le>length (n # ns). spec_matches ps (drop k (n # ns))"
    then obtain k where k: "k \<le> length (n # ns)" "spec_matches ps (drop k (n # ns))" by blast
    show "spec_matches ps (n # ns) \<or> (\<exists>k\<le>length ns. spec_matches ps (drop k ns))"
    proof (cases k)
      case 0
      with k show ?thesis by simp
    next
      case (Suc j)
      with k have "j \<le> length ns" "spec_matches ps (drop j ns)" by simp_all
      then show ?thesis by blast
    qed
  next
    assume "spec_matches ps (n # ns) \<or> (\<exists>k\<le>length ns. spec_matches ps (drop k ns))"
    then show "\<exists>k\<le>length (n # ns). spec_matches ps (drop k (n # ns))"
    proof
      assume "spec_matches ps (n # ns)"
      then have "0 \<le> length (n # ns) \<and> spec_matches ps (drop 0 (n # ns))" by simp
      then show ?thesis by blast
    next
      assume "\<exists>k\<le>length ns. spec_matches ps (drop k ns)"
      then obtain k where "k \<le> length ns" "spec_matches ps (drop k ns)" by blast
      then have "Suc k \<le> length (n # ns) \<and> spec_matches ps (drop (Suc k) (n # ns))" by simp
      then show ?thesis by blast
    qed
  qed
  with Cons show ?case by simp
qed

lemma spec_matches_literal:
  "\<forall>seg\<in>set ps. seg \<noteq> ascii ''*'' \<and> seg \<noteq> ascii ''**'' \<Longrightarrow> spec_matches ps ns \<longleftrightarrow> ps = ns"
proof (induction ps arbitrary: ns)
  case Nil
  show ?case by (cases ns) simp_all
next
  case (Cons p ps)
  show ?case
  proof (cases ns)
    case Nil
    with Cons.prems show ?thesis by simp
  next
    case (Cons n ns')
    with Cons.prems Cons.IH [of ns'] show ?thesis by auto
  qed
qed

text \<open>
  C3. \<open>matchGlob\<close> splits both strings on the dot and matches the two segment sequences
  as the specification says: \<open>matchSegments\<close> from \<open>(0, 0)\<close> is \<open>spec_matches\<close>, and so has
  its case equations. Two exhausted sequences match; an exhausted pattern with name
  segments left fails; an exhausted name matches iff every pattern segment left is
  \<^verbatim>\<open>**\<close>; a \<^verbatim>\<open>**\<close> segment matches some number \<open>k \<ge> 0\<close> of whole name segments;
  a \<^verbatim>\<open>*\<close> segment consumes one name segment whatever it is; any other segment
  consumes one name segment iff it is equal to it. \<^verbatim>\<open>matchGlob('a.**', 'a')\<close> holds,
  \<^verbatim>\<open>matchGlob('a.*', 'a.b.c')\<close> does not, and a pattern with no wildcard segment
  matches a name iff their segment sequences are equal.
\<close>

theorem matchGlob_segment_semantics:
  "matchGlob pattern nm = spec_matches (split_dot pattern) (split_dot nm)
   \<and> matchGlob pattern nm = matchSegments (split_dot pattern) 0 (split_dot nm) 0
   \<and> matchSegments [] 0 [] 0
   \<and> \<not> matchSegments [] 0 (n # ns) 0
   \<and> (matchSegments ps 0 [] 0 \<longleftrightarrow> (\<forall>q\<in>set ps. q = ascii ''**''))
   \<and> (matchSegments (ascii ''**'' # ps) 0 (n # ns) 0 \<longleftrightarrow>
        matchSegments ps 0 (n # ns) 0 \<or> matchSegments (ascii ''**'' # ps) 0 ns 0)
   \<and> (matchSegments (ascii ''**'' # ps) 0 ms 0 \<longleftrightarrow>
        (\<exists>k\<le>length ms. matchSegments ps 0 (drop k ms) 0))
   \<and> (matchSegments (ascii ''*'' # ps) 0 (n # ns) 0 \<longleftrightarrow> matchSegments ps 0 ns 0)
   \<and> (p \<noteq> ascii ''*'' \<and> p \<noteq> ascii ''**'' \<longrightarrow>
        (matchSegments (p # ps) 0 (n # ns) 0 \<longleftrightarrow> p = n \<and> matchSegments ps 0 ns 0))
   \<and> matchGlob (ascii ''a.**'') (ascii ''a'')
   \<and> \<not> matchGlob (ascii ''a.*'') (ascii ''a.b.c'')
   \<and> ((\<forall>seg\<in>set (split_dot pattern). seg \<noteq> ascii ''*'' \<and> seg \<noteq> ascii ''**'') \<longrightarrow>
        (matchGlob pattern nm \<longleftrightarrow> split_dot pattern = split_dot nm))"
proof -
  have star_ne: "ascii ''*'' \<noteq> ascii ''**''"
    by (simp add: ascii_def)
  have e1: "matchGlob (ascii ''a.**'') (ascii ''a'')"
    by (simp add: matchGlob_spec ascii_def)
  have e2: "\<not> matchGlob (ascii ''a.*'') (ascii ''a.b.c'')"
    by (simp add: matchGlob_spec ascii_def)
  have lit: "(\<forall>seg\<in>set (split_dot pattern). seg \<noteq> ascii ''*'' \<and> seg \<noteq> ascii ''**'') \<longrightarrow>
        (matchGlob pattern nm \<longleftrightarrow> split_dot pattern = split_dot nm)"
    using spec_matches_literal [of "split_dot pattern" "split_dot nm"]
    by (simp add: matchGlob_spec)
  have gs: "matchSegments (ascii ''**'' # ps) 0 ms 0 \<longleftrightarrow>
        (\<exists>k\<le>length ms. matchSegments ps 0 (drop k ms) 0)"
    by (simp only: matchSegments_start spec_matches_globstar)
  have nil2: "matchSegments ps 0 [] 0 \<longleftrightarrow> (\<forall>q\<in>set ps. q = ascii ''**'')"
    by (simp add: matchSegments_start spec_matches_Nil2 list_all_iff)
  have st: "matchSegments (ascii ''*'' # ps) 0 (n # ns) 0 \<longleftrightarrow> matchSegments ps 0 ns 0"
    using star_ne by (simp add: matchSegments_start)
  show ?thesis
    using e1 e2 lit gs nil2 st
    by (simp add: matchSegments_start matchGlob_spec)
qed

theorem matchGlob_segment_semantics_witness:
  "list_all (\<lambda>seg. seg \<noteq> ascii ''*'' \<and> seg \<noteq> ascii ''**'') (split_dot (ascii ''a.b''))
   \<and> matchGlob (ascii ''a.b'') (ascii ''a.b'')
   \<and> \<not> matchGlob (ascii ''a.b'') (ascii ''a.c'')
   \<and> ascii ''a'' \<noteq> ascii ''*'' \<and> ascii ''a'' \<noteq> ascii ''**''
   \<and> (matchSegments [ascii ''a'', ascii ''**''] 0 [ascii ''a'', ascii ''b''] 0
        \<longleftrightarrow> matchSegments [ascii ''**''] 0 [ascii ''b''] 0)
   \<and> (\<exists>k\<le>length [ascii ''b'']. matchSegments [] 0 (drop k [ascii ''b'']) 0)"
proof -
  have wf: "\<forall>seg\<in>set (split_dot (ascii ''a.b'')). seg \<noteq> ascii ''*'' \<and> seg \<noteq> ascii ''**''"
    by (simp add: ascii_def)
  have ne: "ascii ''a'' \<noteq> ascii ''*'' \<and> ascii ''a'' \<noteq> ascii ''**''"
    by (simp add: ascii_def)
  have s1: "split_dot (ascii ''a.b'') \<noteq> split_dot (ascii ''a.c'')"
    by (simp add: ascii_def)
  note t1 = matchGlob_segment_semantics [of "ascii ''a.b''" "ascii ''a.b''"]
  note t2 = matchGlob_segment_semantics [of "ascii ''a.b''" "ascii ''a.c''"]
  note t3 = matchGlob_segment_semantics
    [where p = "ascii ''a''" and n = "ascii ''a''" and ps = "[ascii ''**'']" and ns = "[ascii ''b'']"]
  note t4 = matchGlob_segment_semantics
    [where ps = "[]" and ms = "[ascii ''b'']" and n = "ascii ''b''" and ns = "[]"]
  have a: "matchGlob (ascii ''a.b'') (ascii ''a.b'')"
    using t1 wf by blast
  have b: "\<not> matchGlob (ascii ''a.b'') (ascii ''a.c'')"
    using t2 wf s1 by blast
  have c: "matchSegments [ascii ''a'', ascii ''**''] 0 [ascii ''a'', ascii ''b''] 0
        \<longleftrightarrow> matchSegments [ascii ''**''] 0 [ascii ''b''] 0"
    using t3 ne by blast
  have d: "\<exists>k\<le>length [ascii ''b'']. matchSegments [] 0 (drop k [ascii ''b'']) 0"
  proof -
    have "matchSegments [ascii ''**''] 0 [ascii ''b''] 0"
      by (simp add: matchSegments_start ascii_def)
    with t4 show ?thesis by blast
  qed
  from wf have "list_all (\<lambda>seg. seg \<noteq> ascii ''*'' \<and> seg \<noteq> ascii ''**'') (split_dot (ascii ''a.b''))"
    by (simp add: list_all_iff)
  with a b ne c d show ?thesis by blast
qed

subsection \<open>CausalEngine\<close>

text \<open>
  C2. When the call failed, \<open>resolveInvalidations\<close> returns the empty sequence whatever
  the policy is, an absent policy included. When it did not fail, the result is the
  policy's \<open>invalidates\<close> if present and the empty sequence otherwise. The function has
  no \<^verbatim>\<open>throw\<close> and reads the policy only through \<^verbatim>\<open>?.\<close>, so it returns on every
  input. The last two conjuncts are the example of the specification.
\<close>

theorem resolveInvalidations_failed_guard:
  "resolveInvalidations policy True = []
   \<and> resolveInvalidations None False = []
   \<and> resolveInvalidations (Some p) False =
        (case invalidates p of None \<Rightarrow> [] | Some patterns \<Rightarrow> patterns)
   \<and> resolveInvalidations
        (Some \<lparr>cacheControl = None, invalidates = Some [ascii ''a.*'']\<rparr>) True = []
   \<and> resolveInvalidations
        (Some \<lparr>cacheControl = None, invalidates = Some [ascii ''a.*'']\<rparr>) False = [ascii ''a.*'']"
  by (simp add: resolveInvalidations_def)


subsection \<open>ResponseDecorator\<close>

lemma join_Cons: "join sep (p # ps) = p @ concat (map (\<lambda>q. sep @ q) ps)"
  by (induction ps arbitrary: p) simp_all

text \<open>
  C5. The content of the decorated result is one block of type \<^verbatim>\<open>text\<close>, whose text is
  \<^verbatim>\<open>[System: Cache invalidated for \<close>, the patterns joined with \<^verbatim>\<open>, \<close> in their
  order, a space, the dash U+2014, \<^verbatim>\<open> caused by \<close>, the cause and \<^verbatim>\<open>]\<close>, followed by
  the blocks of the original content in their order. \<open>isError\<close> and every other field
  of the result are those of the input. The function builds a new object and a new
  array and assigns to nothing, so the input is the same value after the call. The
  joined text of \<open>p # ps\<close> is \<open>p\<close> followed by each further pattern after \<^verbatim>\<open>, \<close>. The
  last conjunct is the three-pattern case of the tests.
\<close>

theorem decorateResponse_prepends_notice:
  "content (decorateResponse result patterns causedBy) =
     \<lparr>type = ascii ''text'',
      props = [(ascii ''text'',
        JStr (ascii ''[System: Cache invalidated for '' @ join (ascii '', '') patterns
              @ ascii '' '' @ [EM_DASH] @ ascii '' caused by '' @ causedBy @ ascii '']''))]\<rparr>
     # content result
   \<and> isError (decorateResponse result patterns causedBy) = isError result
   \<and> McpCallResult.more (decorateResponse result patterns causedBy) = McpCallResult.more result
   \<and> join (ascii '', '') (p # ps) = p @ concat (map (\<lambda>q. ascii '', '' @ q) ps)
   \<and> content (decorateResponse \<lparr>content = [b], isError = Some False\<rparr>
        [ascii ''tasks.*'', ascii ''sprints.*'', ascii ''dashboard.*''] (ascii ''tasks.update'')) =
      [\<lparr>type = ascii ''text'',
        props = [(ascii ''text'',
          JStr (ascii ''[System: Cache invalidated for tasks.*, sprints.*, dashboard.* ''
                @ [EM_DASH] @ ascii '' caused by tasks.update]''))]\<rparr>, b]"
  by (simp add: decorateResponse_def join_Cons ascii_def)

text \<open>
  C10. \<open>decorateResponse\<close> has no branch on the pattern sequence. With the empty
  sequence it still returns a result with one more block in front, whose text has the
  empty joined list: \<^verbatim>\<open>[System: Cache invalidated for \<close>, nothing, a space, the dash,
  \<^verbatim>\<open> caused by \<close>, the cause, \<^verbatim>\<open>]\<close>; this result is not the input. The guard is in
  the caller: when the invalidation sequence is empty the \<^verbatim>\<open>tools/call\<close> handler
  returns the upstream's result as it is.
\<close>

theorem decorateResponse_empty_patterns:
  "decorateResponse result [] causedBy =
     result\<lparr>content :=
       \<lparr>type = ascii ''text'',
        props = [(ascii ''text'',
          JStr (ascii ''[System: Cache invalidated for  '' @ [EM_DASH]
                @ ascii '' caused by '' @ causedBy @ ascii '']''))]\<rparr>
       # content result\<rparr>
   \<and> decorateResponse result [] causedBy \<noteq> result
   \<and> length (content (decorateResponse result [] causedBy)) = Suc (length (content result))
   \<and> (resolve e h toolName = (r, e', h')
        \<and> resolveInvalidations (policy_at h' r)
             (case isError result of None \<Rightarrow> False | Some b \<Rightarrow> b) = []
      \<longrightarrow> callTool_handler e h toolName result = (result, e', h'))"
proof -
  have len: "length (content (decorateResponse result [] causedBy)) = Suc (length (content result))"
    by (simp add: decorateResponse_def)
  then have "content (decorateResponse result [] causedBy) \<noteq> content result"
    by (metis n_not_Suc_n)
  then have ne: "decorateResponse result [] causedBy \<noteq> result"
    by auto
  show ?thesis
    using len ne by (simp add: decorateResponse_def callTool_handler_def ascii_def)
qed

theorem decorateResponse_empty_patterns_witness:
  "resolve \<lparr>policies = [], defaultCacheControl = None, cache = Map.empty\<rparr> [] (ascii ''x'')
     = (None, \<lparr>policies = [], defaultCacheControl = None, cache = [ascii ''x'' \<mapsto> None]\<rparr>, [])
   \<and> resolveInvalidations (policy_at [] None)
       (case isError \<lparr>content = [], isError = None\<rparr> of None \<Rightarrow> False | Some b \<Rightarrow> b) = []
   \<and> callTool_handler \<lparr>policies = [], defaultCacheControl = None, cache = Map.empty\<rparr> []
       (ascii ''x'') \<lparr>content = [], isError = None\<rparr>
     = (\<lparr>content = [], isError = None\<rparr>,
        \<lparr>policies = [], defaultCacheControl = None, cache = [ascii ''x'' \<mapsto> None]\<rparr>, [])"
proof -
  have r: "resolve \<lparr>policies = [], defaultCacheControl = None, cache = Map.empty\<rparr> [] (ascii ''x'')
     = (None, \<lparr>policies = [], defaultCacheControl = None, cache = [ascii ''x'' \<mapsto> None]\<rparr>, [])"
    by (simp add: resolve_def resolveUncached_def)
  have i: "resolveInvalidations (policy_at [] None)
       (case isError \<lparr>content = [], isError = None\<rparr> of None \<Rightarrow> False | Some b \<Rightarrow> b) = []"
    by (simp add: resolveInvalidations_def policy_at_def)
  from r i decorateResponse_empty_patterns
    [of "\<lparr>content = [], isError = None\<rparr>" "[]"
        "\<lparr>policies = [], defaultCacheControl = None, cache = Map.empty\<rparr>" "[]" "ascii ''x''"
        None "\<lparr>policies = [], defaultCacheControl = None, cache = [ascii ''x'' \<mapsto> None]\<rparr>" "[]"]
  show ?thesis by blast
qed

subsection \<open>PolicyValidator\<close>

lemma typeof_string_iff: "typeof_string v \<longleftrightarrow> (\<exists>s. v = JStr s)"
  by (cases v) simp_all

lemma nonempty_string_iff:
  "\<not> (\<not> truthy v \<or> \<not> typeof_string v) \<longleftrightarrow> (\<exists>s. v = JStr s \<and> s \<noteq> [])"
  by (cases v) simp_all

lemma directive_texts_differ: "ascii ''no-store'' \<noteq> ascii ''immutable''"
  by (simp add: ascii_def)

lemma as_directive_raw: "as_directive (raw_directive d) = d"
proof (cases d)
  case None
  then show ?thesis by (simp add: raw_directive_def)
next
  case (Some x)
  then show ?thesis
    using directive_texts_differ by (cases x) (auto simp: raw_directive_def)
qed

lemma raw_directive_as:
  "v = JUndefined \<or> v \<in> VALID_DIRECTIVES \<Longrightarrow> raw_directive (as_directive v) = v"
  using directive_texts_differ by (auto simp: VALID_DIRECTIVES_def raw_directive_def)

lemma map_JStr_as_string:
  "\<forall>x\<in>set entries. \<exists>s. x = JStr s \<Longrightarrow> map JStr (map as_string entries) = entries"
  by (induction entries) auto

text \<open>What a policy that passes the loop body looks like, field by field.\<close>

lemma validatePolicy_Inr:
  assumes "validatePolicy i p = Inr u"
  shows "\<exists>m. raw_match p = JStr m \<and> m \<noteq> [] \<and> (\<forall>seg\<in>set (split_dot m). VALID_SEGMENT seg)"
    and "raw_cacheControl p = JUndefined \<or> raw_cacheControl p \<in> VALID_DIRECTIVES"
    and "raw_invalidates p = JUndefined
         \<or> (\<exists>entries. raw_invalidates p = JArr entries
               \<and> (\<forall>x\<in>set entries. \<exists>s. x = JStr s \<and> s \<noteq> []))"
proof -
  from assms have m: "\<not> (\<not> truthy (raw_match p) \<or> \<not> typeof_string (raw_match p))"
    by (auto simp: validatePolicy_def split: if_splits)
  then obtain s where s: "raw_match p = JStr s" "s \<noteq> []"
    using nonempty_string_iff by blast
  from assms m s have f: "find (\<lambda>seg. \<not> VALID_SEGMENT seg) (split_dot s) = None"
    by (auto simp: validatePolicy_def split: if_splits option.splits)
  then have "\<forall>seg\<in>set (split_dot s). VALID_SEGMENT seg"
    by (simp add: find_None_iff)
  with s show "\<exists>m. raw_match p = JStr m \<and> m \<noteq> [] \<and> (\<forall>seg\<in>set (split_dot m). VALID_SEGMENT seg)"
    by blast
  from assms m s f show "raw_cacheControl p = JUndefined \<or> raw_cacheControl p \<in> VALID_DIRECTIVES"
    by (auto simp: validatePolicy_def split: if_splits)
  show "raw_invalidates p = JUndefined
         \<or> (\<exists>entries. raw_invalidates p = JArr entries
               \<and> (\<forall>x\<in>set entries. \<exists>s. x = JStr s \<and> s \<noteq> []))"
  proof (cases "raw_invalidates p = JUndefined")
    case True
    then show ?thesis by simp
  next
    case False
    with assms m s f obtain entries where e: "raw_invalidates p = JArr entries"
      "\<not> list_ex (\<lambda>pattern. \<not> truthy pattern \<or> \<not> typeof_string pattern) entries"
      by (auto simp: validatePolicy_def split: if_splits jsval.splits)
    from e(2) have "\<forall>x\<in>set entries. \<exists>s. x = JStr s \<and> s \<noteq> []"
      using nonempty_string_iff by (simp add: list_ex_iff)
    with e(1) show ?thesis by blast
  qed
qed

lemma validatePolicies_from_Inr:
  "validatePolicies_from i ps = Inr u \<Longrightarrow> p \<in> set ps \<Longrightarrow> \<exists>j. validatePolicy j p = Inr ()"
proof (induction ps arbitrary: i)
  case Nil
  then show ?case by simp
next
  case (Cons q qs)
  from Cons.prems(1) have q: "validatePolicy i q = Inr ()"
    and rest: "validatePolicies_from (i + 1) qs = Inr u"
    by (auto split: sum.splits)
  from Cons.prems(2) have "p = q \<or> p \<in> set qs" by simp
  then show ?case
  proof
    assume "p = q"
    with q show ?thesis by blast
  next
    assume "p \<in> set qs"
    with Cons.IH rest show ?thesis by blast
  qed
qed

lemma validatePolicy_typed:
  assumes "validatePolicy i p = Inr u"
  shows "raw_policy (as_SyncPolicy p) = p"
proof -
  from validatePolicy_Inr(1) [OF assms] obtain m where m: "raw_match p = JStr m" by blast
  have c: "raw_directive (as_directive (raw_cacheControl p)) = raw_cacheControl p"
    using validatePolicy_Inr(2) [OF assms] by (rule raw_directive_as)
  have v: "(case as_strings (raw_invalidates p) of None \<Rightarrow> JUndefined | Some xs \<Rightarrow> JArr (map JStr xs))
           = raw_invalidates p"
    using validatePolicy_Inr(3) [OF assms]
  proof
    assume "raw_invalidates p = JUndefined"
    then show ?thesis by simp
  next
    assume "\<exists>entries. raw_invalidates p = JArr entries
               \<and> (\<forall>x\<in>set entries. \<exists>s. x = JStr s \<and> s \<noteq> [])"
    then obtain entries where e: "raw_invalidates p = JArr entries"
      "\<forall>x\<in>set entries. \<exists>s. x = JStr s \<and> s \<noteq> []" by blast
    from e(2) have "\<forall>x\<in>set entries. \<exists>s. x = JStr s" by blast
    then have "map JStr (map as_string entries) = entries" by (rule map_JStr_as_string)
    with e(1) show ?thesis by simp
  qed
  from m c v show ?thesis
    by (simp add: raw_policy_def as_SyncPolicy_def)
qed

lemma PolicyEngine_new_Inr:
  assumes "PolicyEngine_new rawPolicies defaults = Inr e"
  shows "validatePolicies rawPolicies = Inr ()"
    and "validateDefaults defaults = Inr ()"
    and "policies e = map as_SyncPolicy rawPolicies"
    and "defaultCacheControl e =
           (case defaults of None \<Rightarrow> None | Some d \<Rightarrow> as_directive (raw_default_cacheControl d))"
    and "cache e = Map.empty"
  using assms by (auto simp: PolicyEngine_new_def split: sum.splits)

lemma PolicyEngine_new_typed:
  assumes "PolicyEngine_new rawPolicies defaults = Inr e"
  shows "map raw_policy (policies e) = rawPolicies"
proof -
  have "\<forall>p\<in>set rawPolicies. raw_policy (as_SyncPolicy p) = p"
  proof
    fix p assume "p \<in> set rawPolicies"
    with PolicyEngine_new_Inr(1) [OF assms] obtain j where "validatePolicy j p = Inr ()"
      unfolding validatePolicies_def using validatePolicies_from_Inr by blast
    then show "raw_policy (as_SyncPolicy p) = p" by (rule validatePolicy_typed)
  qed
  then have "map (\<lambda>p. raw_policy (as_SyncPolicy p)) rawPolicies = rawPolicies"
    by (simp add: map_idI)
  with PolicyEngine_new_Inr(3) [OF assms] show ?thesis by (simp add: comp_def)
qed

text \<open>
  C7, as the code has it. When construction succeeds, every rule whose \<open>invalidates\<close> is
  present has there an array whose entries are all non-empty strings; so a value that
  is not an array, and an array with an entry that is not a non-empty string, make
  construction fail. The array may be empty: the validator only loops over the entries,
  and \<open>resolveUncached\<close> reads an empty list as an absent one.
\<close>

theorem PolicyEngine_new_invalidates_valid:
  assumes "PolicyEngine_new rawPolicies defaults = Inr e"
    and "p \<in> set rawPolicies"
    and "raw_invalidates p \<noteq> JUndefined"
  shows "\<exists>entries. raw_invalidates p = JArr entries
           \<and> (\<forall>x\<in>set entries. \<exists>s. x = JStr s \<and> s \<noteq> [])"
proof -
  from PolicyEngine_new_Inr(1) [OF assms(1)] assms(2)
  obtain j where "validatePolicy j p = Inr ()"
    unfolding validatePolicies_def using validatePolicies_from_Inr by blast
  from validatePolicy_Inr(3) [OF this] assms(3) show ?thesis by blast
qed

lemmas config_eval =
  PolicyEngine_new_def validatePolicies_def validatePolicy_def validateDefaults_def
  VALID_SEGMENT_def segment_char_def VALID_DIRECTIVES_def as_SyncPolicy_def ascii_def

theorem PolicyEngine_new_invalidates_valid_witness:
  "PolicyEngine_new
     [\<lparr>raw_match = JStr (ascii ''sprints.update''), raw_cacheControl = JUndefined,
       raw_invalidates = JArr [JStr (ascii ''sprints.*'')]\<rparr>] None
     = Inr \<lparr>policies = [\<lparr>cacheControl = None, invalidates = Some [ascii ''sprints.*''],
                          match = ascii ''sprints.update''\<rparr>],
            defaultCacheControl = None, cache = Map.empty\<rparr>
   \<and> (\<exists>entries. JArr [JStr (ascii ''sprints.*'')] = JArr entries
         \<and> (\<forall>x\<in>set entries. \<exists>s. x = JStr s \<and> s \<noteq> []))"
proof -
  let ?p = "\<lparr>raw_match = JStr (ascii ''sprints.update''), raw_cacheControl = JUndefined,
             raw_invalidates = JArr [JStr (ascii ''sprints.*'')]\<rparr>"
  let ?e = "\<lparr>policies = [\<lparr>cacheControl = None, invalidates = Some [ascii ''sprints.*''],
                          match = ascii ''sprints.update''\<rparr>],
            defaultCacheControl = None, cache = Map.empty\<rparr>"
  have new: "PolicyEngine_new [?p] None = Inr ?e"
    by (simp add: config_eval)
  have mem: "?p \<in> set [?p]" by simp
  have pres: "raw_invalidates ?p \<noteq> JUndefined" by simp
  from PolicyEngine_new_invalidates_valid [OF new mem pres] new
  show ?thesis by simp
qed

text \<open>
  C7, as the claim states it, fails: a rule whose \<open>invalidates\<close> is present and is the
  empty array is accepted, and the engine is constructed.
\<close>

theorem PolicyEngine_new_accepts_empty_invalidates:
  "raw_invalidates \<lparr>raw_match = JStr (ascii ''a''), raw_cacheControl = JUndefined,
                     raw_invalidates = JArr []\<rparr> \<noteq> JUndefined
   \<and> PolicyEngine_new
       [\<lparr>raw_match = JStr (ascii ''a''), raw_cacheControl = JUndefined,
         raw_invalidates = JArr []\<rparr>] None
     = Inr \<lparr>policies = [\<lparr>cacheControl = None, invalidates = Some [], match = ascii ''a''\<rparr>],
            defaultCacheControl = None, cache = Map.empty\<rparr>"
  by (simp add: config_eval)

subsection \<open>PolicyEngine\<close>

text \<open>The loop computes the resolution rule, and allocates exactly when it gives a policy.\<close>

lemma resolveUncached_scan_eq:
  "resolveUncached_scan ps d n h =
     (case spec_resolution ps d n of
        None \<Rightarrow> (None, h)
      | Some obj \<Rightarrow> (Some (length h), h @ [obj]))"
proof (induction ps)
  case Nil
  show ?case
    by (simp add: spec_resolution_def freeze_new_def split: option.splits)
next
  case (Cons p ps)
  show ?case
  proof (cases "matchGlob (match p) n")
    case True
    then show ?thesis
      by (cases "cacheControl p"; cases "invalidates p"; cases d)
         (simp_all add: spec_resolution_def freeze_new_def Let_def)
  next
    case False
    with Cons show ?thesis
      by (simp add: spec_resolution_def)
  qed
qed

lemma policy_at_append:
  "\<forall>a. r = Some a \<longrightarrow> a < length h \<Longrightarrow> policy_at (h @ ext) r = policy_at h r"
  by (cases r) (simp_all add: policy_at_def nth_append)

lemma resolve_hit:
  "cache e n = Some cached \<Longrightarrow> resolve e h n = (cached, e, h)"
  by (simp add: resolve_def)

lemma resolve_miss:
  "cache e n = None \<Longrightarrow>
   resolve e h n =
     (case spec_resolution (policies e) (defaultCacheControl e) n of
        None \<Rightarrow> (None, e\<lparr>cache := (cache e)(n \<mapsto> None)\<rparr>, h)
      | Some obj \<Rightarrow> (Some (length h), e\<lparr>cache := (cache e)(n \<mapsto> Some (length h))\<rparr>, h @ [obj]))"
  by (simp add: resolve_def resolveUncached_def resolveUncached_scan_eq split: option.splits)

lemma resolve_step:
  assumes snd: "cache_sound e h" and res: "resolve e h n = (r, e', h')"
  shows "cache_sound e' h'"
    and "policies e' = policies e"
    and "defaultCacheControl e' = defaultCacheControl e"
    and "policy_at h' r = spec_resolution (policies e) (defaultCacheControl e) n"
    and "cache e' n = Some r"
    and "\<exists>ext. h' = h @ ext"
    and "\<forall>m v. cache e m = Some v \<longrightarrow> cache e' m = Some v"
    and "\<forall>a. r = Some a \<longrightarrow> a < length h'"
proof -
  let ?spec = "spec_resolution (policies e) (defaultCacheControl e)"
  have all: "cache_sound e' h' \<and> policies e' = policies e
      \<and> defaultCacheControl e' = defaultCacheControl e
      \<and> policy_at h' r = ?spec n \<and> cache e' n = Some r \<and> (\<exists>ext. h' = h @ ext)
      \<and> (\<forall>m v. cache e m = Some v \<longrightarrow> cache e' m = Some v)
      \<and> (\<forall>a. r = Some a \<longrightarrow> a < length h')"
  proof (cases "cache e n")
    case (Some cached)
    with res have eq: "r = cached" "e' = e" "h' = h"
      by (simp_all add: resolve_hit)
    from snd Some have "policy_at h cached = ?spec n" "\<forall>a. cached = Some a \<longrightarrow> a < length h"
      by (simp_all add: cache_sound_def)
    with snd Some eq show ?thesis by simp
  next
    case None
    note miss = resolve_miss [OF None, of h]
    show ?thesis
    proof (cases "?spec n")
      case nospec: None
      with miss res have eq: "r = None" "e' = e\<lparr>cache := (cache e)(n \<mapsto> None)\<rparr>" "h' = h"
        by simp_all
      have "cache_sound e' h'"
        using snd nospec unfolding cache_sound_def eq
        by (auto simp: policy_at_def)
      with eq nospec None show ?thesis
        by (simp add: policy_at_def)
    next
      case (Some obj)
      with miss res have eq: "r = Some (length h)"
        "e' = e\<lparr>cache := (cache e)(n \<mapsto> Some (length h))\<rparr>" "h' = h @ [obj]"
        by simp_all
      have "cache_sound e' h'"
        unfolding cache_sound_def
      proof (intro allI impI)
        fix m v assume c: "cache e' m = Some v"
        show "policy_at h' v = spec_resolution (policies e') (defaultCacheControl e') m
              \<and> (\<forall>a. v = Some a \<longrightarrow> a < length h')"
        proof (cases "m = n")
          case True
          with c eq Some show ?thesis by (auto simp: policy_at_def)
        next
          case False
          with c eq have old: "cache e m = Some v" by simp
          with snd have o: "policy_at h v = ?spec m" "\<forall>a. v = Some a \<longrightarrow> a < length h"
            by (simp_all add: cache_sound_def)
          from o(2) have "policy_at (h @ [obj]) v = policy_at h v"
            by (rule policy_at_append)
          with o eq show ?thesis by auto
        qed
      qed
      with eq Some None show ?thesis
        by (simp add: policy_at_def)
    qed
  qed
  from all show "cache_sound e' h'" by blast
  from all show "policies e' = policies e" by blast
  from all show "defaultCacheControl e' = defaultCacheControl e" by blast
  from all show "policy_at h' r = ?spec n" by blast
  from all show "cache e' n = Some r" by blast
  from all show "\<exists>ext. h' = h @ ext" by blast
  from all show "\<forall>m v. cache e m = Some v \<longrightarrow> cache e' m = Some v" by blast
  from all show "\<forall>a. r = Some a \<longrightarrow> a < length h'" by blast
qed

lemma resolve_each_steps:
  assumes "cache_sound e h" and "resolve_each e h ns = (e', h')"
  shows "cache_sound e' h' \<and> policies e' = policies e
      \<and> defaultCacheControl e' = defaultCacheControl e
      \<and> (\<exists>ext. h' = h @ ext)
      \<and> (\<forall>m v. cache e m = Some v \<longrightarrow> cache e' m = Some v)"
  using assms
proof (induction ns arbitrary: e h)
  case Nil
  then show ?case by simp
next
  case (Cons n ns)
  obtain r e1 h1 where r: "resolve e h n = (r, e1, h1)"
    by (cases "resolve e h n") auto
  with Cons.prems(2) have rest: "resolve_each e1 h1 ns = (e', h')" by simp
  note s = resolve_step [OF Cons.prems(1) r]
  from Cons.IH [OF s(1) rest] s(2,3,6,7) show ?case
    by (metis append.assoc)
qed

lemma PolicyEngine_new_sound:
  "PolicyEngine_new rawPolicies defaults = Inr e \<Longrightarrow> cache_sound e h"
  by (simp add: PolicyEngine_new_Inr(5) cache_sound_def)

lemma find_first:
  "\<forall>q\<in>set pre. \<not> P q \<Longrightarrow> P x \<Longrightarrow> find P (pre @ x # post) = Some x"
  by (induction pre) simp_all

lemma spec_resolution_no_match:
  "\<forall>q\<in>set rules. \<not> matchGlob (match q) n \<Longrightarrow>
   spec_resolution rules d n =
     (case d of None \<Rightarrow> None | Some x \<Rightarrow> Some \<lparr>cacheControl = Some x, invalidates = None\<rparr>)"
proof -
  assume "\<forall>q\<in>set rules. \<not> matchGlob (match q) n"
  then have "find (\<lambda>rule. matchGlob (match rule) n) rules = None"
    by (simp add: find_None_iff)
  then show ?thesis by (simp add: spec_resolution_def)
qed

lemma spec_resolution_first_match:
  assumes "\<forall>q\<in>set pre. \<not> matchGlob (match q) n" and "matchGlob (match rule) n"
  shows "spec_resolution (pre @ rule # post) d n =
     (let directive = (case cacheControl rule of Some x \<Rightarrow> Some x | None \<Rightarrow> d);
          inv = (case invalidates rule of
                   None \<Rightarrow> None
                 | Some xs \<Rightarrow> if xs \<noteq> [] then Some xs else None)
      in if directive = None \<and> inv = None then None
         else Some \<lparr>cacheControl = directive, invalidates = inv\<rparr>)"
proof -
  have "find (\<lambda>rule. matchGlob (match rule) n) (pre @ rule # post) = Some rule"
    using assms by (rule find_first)
  then show ?thesis
    by (cases "cacheControl rule"; cases "invalidates rule")
       (simp_all add: spec_resolution_def Let_def)
qed

text \<open>
  C1. Take an engine that was constructed without error, in the state it has after
  resolving any list of names, and resolve a name. The policy returned is the one the
  resolution rule gives on the rule list of the engine, which is the validated
  configuration in its declared order, both when the answer is computed and when it
  comes from the cache; a reference returned points into the store. Spelled out: when \<open>rule\<close> is the first rule in the list whose
  pattern matches the name, the directive is the rule's or else the default's, the
  invalidation list is the rule's if it is non-empty and absent otherwise, and the
  result is absent when both are; when no rule matches, the result is the default
  directive alone if there is one and absent otherwise.
\<close>

theorem resolve_first_match_wins:
  assumes new: "PolicyEngine_new rawPolicies defaults = Inr e0"
    and hist: "resolve_each e0 h0 history = (e, h)"
    and res: "resolve e h toolName = (r, e', h')"
  shows "policy_at h' r = spec_resolution (policies e0) (defaultCacheControl e0) toolName
    \<and> (\<forall>a. r = Some a \<longrightarrow> a < length h')
    \<and> map raw_policy (policies e0) = rawPolicies
    \<and> defaultCacheControl e0 =
        (case defaults of None \<Rightarrow> None | Some d \<Rightarrow> as_directive (raw_default_cacheControl d))
    \<and> (policies e0 = pre @ rule # post
        \<and> (\<forall>q\<in>set pre. \<not> matchGlob (match q) toolName)
        \<and> matchGlob (match rule) toolName
        \<longrightarrow> policy_at h' r =
          (let directive = (case cacheControl rule of
                              Some x \<Rightarrow> Some x
                            | None \<Rightarrow> defaultCacheControl e0);
               inv = (case invalidates rule of
                        None \<Rightarrow> None
                      | Some xs \<Rightarrow> if xs \<noteq> [] then Some xs else None)
           in if directive = None \<and> inv = None then None
              else Some \<lparr>cacheControl = directive, invalidates = inv\<rparr>))
    \<and> ((\<forall>q\<in>set (policies e0). \<not> matchGlob (match q) toolName)
        \<longrightarrow> policy_at h' r =
          (case defaultCacheControl e0 of
             None \<Rightarrow> None
           | Some x \<Rightarrow> Some \<lparr>cacheControl = Some x, invalidates = None\<rparr>))"
proof -
  have s0: "cache_sound e0 h0"
    using new by (rule PolicyEngine_new_sound)
  from resolve_each_steps [OF s0 hist]
  have s: "cache_sound e h" and p: "policies e = policies e0"
    and d: "defaultCacheControl e = defaultCacheControl e0"
    by blast+
  from resolve_step(4) [OF s res] p d
  have main: "policy_at h' r = spec_resolution (policies e0) (defaultCacheControl e0) toolName"
    by simp
  show ?thesis
    using main resolve_step(8) [OF s res]
      PolicyEngine_new_typed [OF new] PolicyEngine_new_Inr(4) [OF new]
      spec_resolution_first_match [of pre toolName rule post "defaultCacheControl e0"]
      spec_resolution_no_match [of "policies e0" toolName "defaultCacheControl e0"]
    by simp
qed

lemmas engine_eval =
  resolve_def resolveUncached_def freeze_new_def policy_at_def matchGlob_spec ascii_def

theorem resolve_first_match_wins_witness:
  "PolicyEngine_new
     [\<lparr>raw_match = JStr (ascii ''a.b''), raw_cacheControl = JStr (ascii ''immutable''),
       raw_invalidates = JUndefined\<rparr>,
      \<lparr>raw_match = JStr (ascii ''a.*''), raw_cacheControl = JStr (ascii ''no-store''),
       raw_invalidates = JUndefined\<rparr>] None
     = Inr \<lparr>policies =
              [\<lparr>cacheControl = Some Immutable, invalidates = None, match = ascii ''a.b''\<rparr>,
               \<lparr>cacheControl = Some NoStore, invalidates = None, match = ascii ''a.*''\<rparr>],
            defaultCacheControl = None, cache = Map.empty\<rparr>
   \<and> resolve_each
       \<lparr>policies =
          [\<lparr>cacheControl = Some Immutable, invalidates = None, match = ascii ''a.b''\<rparr>,
           \<lparr>cacheControl = Some NoStore, invalidates = None, match = ascii ''a.*''\<rparr>],
        defaultCacheControl = None, cache = Map.empty\<rparr> [] [ascii ''a.b'']
     = (\<lparr>policies =
          [\<lparr>cacheControl = Some Immutable, invalidates = None, match = ascii ''a.b''\<rparr>,
           \<lparr>cacheControl = Some NoStore, invalidates = None, match = ascii ''a.*''\<rparr>],
         defaultCacheControl = None, cache = [ascii ''a.b'' \<mapsto> Some 0]\<rparr>,
        [\<lparr>cacheControl = Some Immutable, invalidates = None\<rparr>])
   \<and> policy_at
       [\<lparr>cacheControl = Some Immutable, invalidates = None\<rparr>,
        \<lparr>cacheControl = Some NoStore, invalidates = None\<rparr>] (Some 1)
     = Some \<lparr>cacheControl = Some NoStore, invalidates = None\<rparr>
   \<and> policy_at [\<lparr>cacheControl = Some Immutable, invalidates = None\<rparr>] (Some 0)
     = Some \<lparr>cacheControl = Some Immutable, invalidates = None\<rparr>"
proof -
  let ?r1 = "\<lparr>cacheControl = Some Immutable, invalidates = None, match = ascii ''a.b''\<rparr>"
  let ?r2 = "\<lparr>cacheControl = Some NoStore, invalidates = None, match = ascii ''a.*''\<rparr>"
  let ?e0 = "\<lparr>policies = [?r1, ?r2], defaultCacheControl = None, cache = Map.empty\<rparr>"
  let ?e1 = "\<lparr>policies = [?r1, ?r2], defaultCacheControl = None,
              cache = [ascii ''a.b'' \<mapsto> Some 0]\<rparr>"
  let ?e2 = "\<lparr>policies = [?r1, ?r2], defaultCacheControl = None,
              cache = [ascii ''a.b'' \<mapsto> Some 0, ascii ''a.c'' \<mapsto> Some 1]\<rparr>"
  let ?o1 = "\<lparr>cacheControl = Some Immutable, invalidates = None\<rparr>"
  let ?o2 = "\<lparr>cacheControl = Some NoStore, invalidates = None\<rparr>"
  have new: "PolicyEngine_new
     [\<lparr>raw_match = JStr (ascii ''a.b''), raw_cacheControl = JStr (ascii ''immutable''),
       raw_invalidates = JUndefined\<rparr>,
      \<lparr>raw_match = JStr (ascii ''a.*''), raw_cacheControl = JStr (ascii ''no-store''),
       raw_invalidates = JUndefined\<rparr>] None = Inr ?e0"
    by (simp add: config_eval)
  have first: "resolve ?e0 [] (ascii ''a.b'') = (Some 0, ?e1, [?o1])"
    by (simp add: engine_eval)
  then have hist: "resolve_each ?e0 [] [ascii ''a.b''] = (?e1, [?o1])"
    by simp
  have res0: "resolve_each ?e0 [] [] = (?e0, [])"
    by simp
  have second: "resolve ?e1 [?o1] (ascii ''a.c'') = (Some 1, ?e2, [?o1, ?o2])"
    by (simp add: engine_eval)
  have m1: "matchGlob (match ?r1) (ascii ''a.b'')"
    by (simp add: matchGlob_spec ascii_def)
  have m2: "\<not> matchGlob (match ?r1) (ascii ''a.c'')" "matchGlob (match ?r2) (ascii ''a.c'')"
    by (simp_all add: matchGlob_spec ascii_def)
  note t1 = resolve_first_match_wins [OF new res0 first, where pre = "[]" and rule = ?r1 and post = "[?r2]"]
  note t2 = resolve_first_match_wins [OF new hist second, where pre = "[?r1]" and rule = ?r2 and post = "[]"]
  have a: "policy_at [?o1] (Some 0) = Some ?o1"
    using t1 [THEN conjunct2, THEN conjunct2, THEN conjunct2, THEN conjunct2, THEN conjunct1] m1
    by (simp add: Let_def)
  have b: "policy_at [?o1, ?o2] (Some 1) = Some ?o2"
    using t2 [THEN conjunct2, THEN conjunct2, THEN conjunct2, THEN conjunct2, THEN conjunct1] m2
    by (simp add: Let_def)
  from new hist a b show ?thesis by simp
qed

text \<open>
  C6. Take an engine that was constructed without error, in the state it has after
  resolving any list of names. Resolve a name, then any list of names, then the same
  name again. The second call returns the reference the first returned (the same
  address in the store, or \<^verbatim>\<open>null\<close> both times), the object behind it is the same, and the second
  call changes neither the engine nor the store. The first call leaves its outcome in
  the cache under the name. Every entry that was in the cache before a call is in it,
  unchanged, after the call: the cache only grows.
\<close>

theorem resolve_cached:
  assumes new: "PolicyEngine_new rawPolicies defaults = Inr e0"
    and hist: "resolve_each e0 h0 history = (e, h)"
    and first: "resolve e h toolName = (r1, e1, h1)"
    and between: "resolve_each e1 h1 others = (e2, h2)"
    and second: "resolve e2 h2 toolName = (r2, e3, h3)"
  shows "r2 = r1
    \<and> (\<forall>a. r1 = Some a \<longrightarrow> a < length h1)
    \<and> policy_at h3 r2 = policy_at h1 r1
    \<and> e3 = e2 \<and> h3 = h2
    \<and> cache e1 toolName = Some r1
    \<and> (\<forall>n v. cache e n = Some v \<longrightarrow> cache e1 n = Some v)
    \<and> (\<forall>n v. cache e1 n = Some v \<longrightarrow> cache e2 n = Some v)
    \<and> dom (cache e) \<subseteq> dom (cache e1)
    \<and> dom (cache e1) \<subseteq> dom (cache e3)"
proof -
  have s0: "cache_sound e0 h0"
    using new by (rule PolicyEngine_new_sound)
  from resolve_each_steps [OF s0 hist] have s: "cache_sound e h"
    by blast
  note f = resolve_step [OF s first]
  from resolve_each_steps [OF f(1) between]
  obtain ext where b: "h2 = h1 @ ext" "\<forall>m v. cache e1 m = Some v \<longrightarrow> cache e2 m = Some v"
    by blast
  from f(5) b(2) have hit: "cache e2 toolName = Some r1"
    by blast
  from second resolve_hit [OF hit, of h2] have eq: "r2 = r1" "e3 = e2" "h3 = h2"
    by simp_all
  have val: "policy_at h3 r2 = policy_at h1 r1"
    using policy_at_append [OF f(8), of ext] eq b(1) by simp
  have d1: "dom (cache e) \<subseteq> dom (cache e1)"
    using f(7) by (auto simp: dom_def)
  have d2: "dom (cache e1) \<subseteq> dom (cache e3)"
    using b(2) eq(2) by (auto simp: dom_def)
  from eq val f(5) f(7) f(8) b(2) d1 d2 show ?thesis
    by blast
qed

theorem resolve_cached_witness:
  "PolicyEngine_new
     [\<lparr>raw_match = JStr (ascii ''sprints.*''), raw_cacheControl = JStr (ascii ''no-store''),
       raw_invalidates = JUndefined\<rparr>] None
     = Inr \<lparr>policies =
              [\<lparr>cacheControl = Some NoStore, invalidates = None, match = ascii ''sprints.*''\<rparr>],
            defaultCacheControl = None, cache = Map.empty\<rparr>
   \<and> resolve
       \<lparr>policies =
          [\<lparr>cacheControl = Some NoStore, invalidates = None, match = ascii ''sprints.*''\<rparr>],
        defaultCacheControl = None, cache = Map.empty\<rparr> [] (ascii ''sprints.get'')
     = (Some 0,
        \<lparr>policies =
          [\<lparr>cacheControl = Some NoStore, invalidates = None, match = ascii ''sprints.*''\<rparr>],
         defaultCacheControl = None, cache = [ascii ''sprints.get'' \<mapsto> Some 0]\<rparr>,
        [\<lparr>cacheControl = Some NoStore, invalidates = None\<rparr>])
   \<and> resolve
       \<lparr>policies =
          [\<lparr>cacheControl = Some NoStore, invalidates = None, match = ascii ''sprints.*''\<rparr>],
        defaultCacheControl = None, cache = [ascii ''sprints.get'' \<mapsto> Some 0]\<rparr>
       [\<lparr>cacheControl = Some NoStore, invalidates = None\<rparr>] (ascii ''sprints.get'')
     = (Some 0,
        \<lparr>policies =
          [\<lparr>cacheControl = Some NoStore, invalidates = None, match = ascii ''sprints.*''\<rparr>],
         defaultCacheControl = None, cache = [ascii ''sprints.get'' \<mapsto> Some 0]\<rparr>,
        [\<lparr>cacheControl = Some NoStore, invalidates = None\<rparr>])
   \<and> dom (Map.empty :: jsstring \<rightharpoonup> addr option) \<subseteq> dom [ascii ''sprints.get'' \<mapsto> Some (0::nat)]"
proof -
  let ?r = "\<lparr>cacheControl = Some NoStore, invalidates = None, match = ascii ''sprints.*''\<rparr>"
  let ?e0 = "\<lparr>policies = [?r], defaultCacheControl = None, cache = Map.empty\<rparr>"
  let ?e1 = "\<lparr>policies = [?r], defaultCacheControl = None,
              cache = [ascii ''sprints.get'' \<mapsto> Some 0]\<rparr>"
  let ?o = "\<lparr>cacheControl = Some NoStore, invalidates = None\<rparr>"
  have new: "PolicyEngine_new
     [\<lparr>raw_match = JStr (ascii ''sprints.*''), raw_cacheControl = JStr (ascii ''no-store''),
       raw_invalidates = JUndefined\<rparr>] None = Inr ?e0"
    by (simp add: config_eval)
  have hist: "resolve_each ?e0 [] [] = (?e0, [])"
    by simp
  have first: "resolve ?e0 [] (ascii ''sprints.get'') = (Some 0, ?e1, [?o])"
    by (simp add: engine_eval)
  have between: "resolve_each ?e1 [?o] [] = (?e1, [?o])"
    by simp
  obtain r2 e3 h3 where second: "resolve ?e1 [?o] (ascii ''sprints.get'') = (r2, e3, h3)"
    by (cases "resolve ?e1 [?o] (ascii ''sprints.get'')") auto
  note t = resolve_cached [OF new hist first between second]
  from t have "r2 = Some 0" "e3 = ?e1" "h3 = [?o]"
    by simp_all
  with second have again: "resolve ?e1 [?o] (ascii ''sprints.get'') = (Some 0, ?e1, [?o])"
    by simp
  from t have "dom (cache ?e0) \<subseteq> dom (cache ?e1)"
    by blast
  with new first again show ?thesis by simp
qed

text \<open>
  C9. Construction with an empty rule list succeeds: without a defaults object, and
  with a defaults object whose \<open>cacheControl\<close> is absent or one of the two directives.
  From any state such an engine reaches, every name resolves to a policy that has the
  default directive and nothing else when there is a default directive, and to no
  policy otherwise.
\<close>

theorem empty_rule_set:
  "PolicyEngine_new [] None
     = Inr \<lparr>policies = [], defaultCacheControl = None, cache = Map.empty\<rparr>
   \<and> PolicyEngine_new [] (Some \<lparr>raw_default_cacheControl = raw_directive d\<rparr>)
     = Inr \<lparr>policies = [], defaultCacheControl = d, cache = Map.empty\<rparr>
   \<and> (resolve_each \<lparr>policies = [], defaultCacheControl = d, cache = Map.empty\<rparr> h0 history = (e, h)
        \<and> resolve e h toolName = (r, e', h')
      \<longrightarrow> policy_at h' r =
          (case d of
             None \<Rightarrow> None
           | Some x \<Rightarrow> Some \<lparr>cacheControl = Some x, invalidates = None\<rparr>))"
proof -
  let ?e0 = "\<lparr>policies = [], defaultCacheControl = d, cache = Map.empty\<rparr>"
  have n1: "PolicyEngine_new [] None
     = Inr \<lparr>policies = [], defaultCacheControl = None, cache = Map.empty\<rparr>"
    by (simp add: PolicyEngine_new_def validatePolicies_def validateDefaults_def)
  have "raw_directive d = JUndefined \<or> raw_directive d \<in> VALID_DIRECTIVES"
    by (cases d rule: option.exhaust; cases "the d")
       (simp_all add: raw_directive_def VALID_DIRECTIVES_def)
  then have n2: "PolicyEngine_new [] (Some \<lparr>raw_default_cacheControl = raw_directive d\<rparr>) = Inr ?e0"
    by (auto simp: PolicyEngine_new_def validatePolicies_def validateDefaults_def as_directive_raw)
  have s0: "cache_sound ?e0 h0"
    by (simp add: cache_sound_def)
  have r: "policy_at h' r =
          (case d of None \<Rightarrow> None | Some x \<Rightarrow> Some \<lparr>cacheControl = Some x, invalidates = None\<rparr>)"
    if hist: "resolve_each ?e0 h0 history = (e, h)" and res: "resolve e h toolName = (r, e', h')"
  proof -
    from resolve_each_steps [OF s0 hist]
    have s: "cache_sound e h" and p: "policies e = []" and dd: "defaultCacheControl e = d"
      by simp_all
    from resolve_step(4) [OF s res] p dd show ?thesis
      by (simp add: spec_resolution_def)
  qed
  from n1 n2 r show ?thesis by blast
qed

theorem empty_rule_set_witness:
  "resolve_each \<lparr>policies = [], defaultCacheControl = Some NoStore, cache = Map.empty\<rparr> []
     [ascii ''a'']
     = (\<lparr>policies = [], defaultCacheControl = Some NoStore, cache = [ascii ''a'' \<mapsto> Some 0]\<rparr>,
        [\<lparr>cacheControl = Some NoStore, invalidates = None\<rparr>])
   \<and> resolve
       \<lparr>policies = [], defaultCacheControl = Some NoStore, cache = [ascii ''a'' \<mapsto> Some 0]\<rparr>
       [\<lparr>cacheControl = Some NoStore, invalidates = None\<rparr>] (ascii ''b.c'')
     = (Some 1,
        \<lparr>policies = [], defaultCacheControl = Some NoStore,
         cache = [ascii ''a'' \<mapsto> Some 0, ascii ''b.c'' \<mapsto> Some 1]\<rparr>,
        [\<lparr>cacheControl = Some NoStore, invalidates = None\<rparr>,
         \<lparr>cacheControl = Some NoStore, invalidates = None\<rparr>])
   \<and> policy_at
       [\<lparr>cacheControl = Some NoStore, invalidates = None\<rparr>,
        \<lparr>cacheControl = Some NoStore, invalidates = None\<rparr>] (Some 1)
     = Some \<lparr>cacheControl = Some NoStore, invalidates = None\<rparr>
   \<and> PolicyEngine_new [] (Some \<lparr>raw_default_cacheControl = JStr (ascii ''no-store'')\<rparr>)
     = Inr \<lparr>policies = [], defaultCacheControl = Some NoStore, cache = Map.empty\<rparr>"
proof -
  let ?o = "\<lparr>cacheControl = Some NoStore, invalidates = None\<rparr>"
  let ?e0 = "\<lparr>policies = [], defaultCacheControl = Some NoStore, cache = Map.empty\<rparr>"
  let ?e1 = "\<lparr>policies = [], defaultCacheControl = Some NoStore,
              cache = [ascii ''a'' \<mapsto> Some 0]\<rparr>"
  let ?e2 = "\<lparr>policies = [], defaultCacheControl = Some NoStore,
              cache = [ascii ''a'' \<mapsto> Some 0, ascii ''b.c'' \<mapsto> Some 1]\<rparr>"
  have hist: "resolve_each ?e0 [] [ascii ''a''] = (?e1, [?o])"
    by (simp add: engine_eval)
  have res: "resolve ?e1 [?o] (ascii ''b.c'') = (Some 1, ?e2, [?o, ?o])"
    by (simp add: engine_eval)
  note t = empty_rule_set [of "Some NoStore" "[]" "[ascii ''a'']" ?e1 "[?o]" "ascii ''b.c''"
      "Some 1" ?e2 "[?o, ?o]"]
  from t hist res have a: "policy_at [?o, ?o] (Some 1) = Some ?o"
    by simp
  from t have b: "PolicyEngine_new [] (Some \<lparr>raw_default_cacheControl = JStr (ascii ''no-store'')\<rparr>)
     = Inr ?e0"
    by (simp add: raw_directive_def)
  from hist res a b show ?thesis by simp
qed

subsection \<open>DescriptionDecorator\<close>

text \<open>What a successful match says about the input, atom by atom.\<close>

lemma rx_match_Chrs:
  "rx_match (map Chr lit @ r) s = Some rest \<Longrightarrow> \<exists>t. s = lit @ t \<and> rx_match r t = Some rest"
proof (induction lit arbitrary: s)
  case Nil
  then show ?case by simp
next
  case (Cons c lit)
  then show ?case by (cases s) (auto split: if_splits)
qed

lemma rx_match_Cls:
  "rx_match (Cls k # r) s = Some rest \<Longrightarrow>
   \<exists>x t. s = x # t \<and> in_class k x \<and> rx_match r t = Some rest"
  by (cases s) (auto split: if_splits)

lemma rx_match_Star:
  "rx_match (Star k # r) s = Some rest \<Longrightarrow>
   \<exists>ws t. s = ws @ t \<and> list_all (in_class k) ws \<and> rx_match r t = Some rest"
proof (induction s)
  case Nil
  then have m: "rx_match r [] = Some rest" by simp
  show ?case
    by (rule exI [of _ "[]"], rule exI [of _ "[]"]) (simp add: m)
next
  case (Cons x xs)
  from Cons.prems have unfold:
    "(if in_class k x
      then (case rx_match (Star k # r) xs of Some rest \<Rightarrow> Some rest | None \<Rightarrow> rx_match r (x # xs))
      else rx_match r (x # xs)) = Some rest"
    by (simp only: rx_match.simps)
  show ?case
  proof (cases "in_class k x \<and> rx_match (Star k # r) xs \<noteq> None")
    case True
    then obtain rest' where r': "rx_match (Star k # r) xs = Some rest'" by auto
    with True unfold have "rest' = rest" by simp
    with r' have "rx_match (Star k # r) xs = Some rest" by simp
    from Cons.IH [OF this] obtain ws t where
      wt: "xs = ws @ t" "list_all (in_class k) ws" "rx_match r t = Some rest" by auto
    show ?thesis
      by (rule exI [of _ "x # ws"], rule exI [of _ t]) (simp add: wt True)
  next
    case False
    with unfold have m: "rx_match r (x # xs) = Some rest"
      by (cases "in_class k x"; cases "rx_match (Star k # r) xs") simp_all
    show ?thesis
      by (rule exI [of _ "[]"], rule exI [of _ "x # xs"]) (simp add: m)
  qed
qed

lemma rx_match_closing:
  "rx_match [Chr c, Eos] s = Some rest \<Longrightarrow> s = [c] \<and> rest = []"
  by (cases s) (auto split: if_splits)

lemma CACHE_CONTROL_PATTERN_match:
  assumes "rx_match CACHE_CONTROL_PATTERN s = Some rest"
  shows "rest = [] \<and> (\<exists>ws t. s = ws @ t \<and> list_all js_whitespace ws \<and> cache_control_annotation t)"
proof -
  let ?tail = "[Star Whitespace, Cls WordChar, Star NotRBracket, Chr (of_char CHR '']''), Eos]"
  from assms have "rx_match (Star Whitespace # (map Chr (ascii ''[Cache-Control:'') @ ?tail)) s
      = Some rest"
    by (simp add: CACHE_CONTROL_PATTERN_def)
  from rx_match_Star [OF this] obtain ws t1 where
    1: "s = ws @ t1" "list_all (in_class Whitespace) ws"
      "rx_match (map Chr (ascii ''[Cache-Control:'') @ ?tail) t1 = Some rest" by blast
  from rx_match_Chrs [OF 1(3)] obtain t2 where
    2: "t1 = ascii ''[Cache-Control:'' @ t2" "rx_match ?tail t2 = Some rest" by blast
  from rx_match_Star [OF 2(2)] obtain ws' t3 where
    3: "t2 = ws' @ t3" "list_all (in_class Whitespace) ws'"
      "rx_match [Cls WordChar, Star NotRBracket, Chr (of_char CHR '']''), Eos] t3 = Some rest"
    by blast
  from rx_match_Cls [OF 3(3)] obtain w t4 where
    4: "t3 = w # t4" "in_class WordChar w"
      "rx_match [Star NotRBracket, Chr (of_char CHR '']''), Eos] t4 = Some rest" by blast
  from rx_match_Star [OF 4(3)] obtain body t5 where
    5: "t4 = body @ t5" "list_all (in_class NotRBracket) body"
      "rx_match [Chr (of_char CHR '']''), Eos] t5 = Some rest" by blast
  from rx_match_closing [OF 5(3)] have 6: "t5 = [of_char CHR '']'']" "rest = []"
    by simp_all
  have ws: "list_all js_whitespace ws" "list_all js_whitespace ws'"
    using 1(2) 3(2) by (simp_all add: list_all_iff)
  have body: "of_char CHR '']'' \<notin> set body"
    using 5(2) by (auto simp: list_all_iff)
  have "t1 = ascii ''[Cache-Control:'' @ ws' @ w # body @ ascii '']''"
    using 2(1) 3(1) 4(1) 5(1) 6(1) by (simp add: ascii_def)
  with ws(2) 4(2) body have "cache_control_annotation t1"
    unfolding cache_control_annotation_def by auto
  with 1(1) ws(1) 6(2) show ?thesis by blast
qed

lemma replace_first_unchanged:
  "\<forall>pre suf. s = pre @ suf \<longrightarrow> rx_match r suf = None \<Longrightarrow> replace_first r rep s = s"
proof (induction s)
  case Nil
  then show ?case by simp
next
  case (Cons c cs)
  from Cons.prems have here: "rx_match r (c # cs) = None"
    by (metis append_Nil)
  have "\<forall>pre suf. cs = pre @ suf \<longrightarrow> rx_match r suf = None"
    using Cons.prems by (metis append_Cons)
  with Cons.IH here show ?case by simp
qed

lemma no_annotation_no_match:
  assumes "\<not> (\<exists>pre suf. desc = pre @ suf \<and> cache_control_annotation suf)"
  shows "\<forall>pre suf. desc = pre @ suf \<longrightarrow> rx_match CACHE_CONTROL_PATTERN suf = None"
proof (intro allI impI)
  fix pre suf assume d: "desc = pre @ suf"
  show "rx_match CACHE_CONTROL_PATTERN suf = None"
  proof (rule ccontr)
    assume "rx_match CACHE_CONTROL_PATTERN suf \<noteq> None"
    then obtain rest where "rx_match CACHE_CONTROL_PATTERN suf = Some rest" by blast
    from CACHE_CONTROL_PATTERN_match [OF this] obtain ws t where
      "suf = ws @ t" "cache_control_annotation t" by blast
    with d have "desc = (pre @ ws) @ t \<and> cache_control_annotation t" by simp
    with assms show False by blast
  qed
qed

text \<open>
  C8, as the code has it. The pattern that finds an earlier annotation is wider than
  the two emitted texts: it takes any trailing \<^verbatim>\<open>[Cache-Control: ...]\<close> whose value
  starts with a word character and has no \<^verbatim>\<open>]\<close> in it, with any white space before
  the bracket and after the colon. When no suffix of the description (the empty string
  for a missing one) has that form, decoration with a policy that carries a directive
  keeps the whole description and appends a space and \<^verbatim>\<open>[Cache-Control: directive]\<close>;
  the other fields of the tool are kept.
\<close>

theorem decorateDescription_appends:
  assumes "cacheControl p = Some d"
    and "\<not> (\<exists>pre suf. (case description tool of None \<Rightarrow> [] | Some x \<Rightarrow> x) = pre @ suf
              \<and> cache_control_annotation suf)"
  shows "decorateDescription tool (Some p) =
     tool\<lparr>description :=
       Some ((case description tool of None \<Rightarrow> [] | Some x \<Rightarrow> x)
             @ ascii '' [Cache-Control: '' @ directive_text d @ ascii '']'')\<rparr>"
proof -
  let ?desc = "case description tool of None \<Rightarrow> [] | Some x \<Rightarrow> x"
  from assms(2) have "\<forall>pre suf. ?desc = pre @ suf \<longrightarrow> rx_match CACHE_CONTROL_PATTERN suf = None"
    by (rule no_annotation_no_match)
  then have "replace_first CACHE_CONTROL_PATTERN [] ?desc = ?desc"
    by (rule replace_first_unchanged)
  with assms(1) show ?thesis
    by (simp add: decorateDescription_def)
qed

lemmas decorate_eval =
  decorateDescription_def CACHE_CONTROL_PATTERN_def js_whitespace_def js_word_char_def ascii_def

theorem decorateDescription_appends_witness:
  "cacheControl \<lparr>cacheControl = Some NoStore, invalidates = None\<rparr> = Some NoStore
   \<and> \<not> (\<exists>pre suf. ascii ''Get sprint details.'' = pre @ suf \<and> cache_control_annotation suf)
   \<and> decorateDescription
        \<lparr>name = ascii ''sprints.get'', description = Some (ascii ''Get sprint details.''),
         inputSchema = (), annotations = None\<rparr>
        (Some \<lparr>cacheControl = Some NoStore, invalidates = None\<rparr>)
      = \<lparr>name = ascii ''sprints.get'',
         description = Some (ascii ''Get sprint details. [Cache-Control: no-store]''),
         inputSchema = (), annotations = None\<rparr>"
proof -
  let ?tool = "\<lparr>name = ascii ''sprints.get'', description = Some (ascii ''Get sprint details.''),
         inputSchema = (), annotations = None\<rparr>"
  let ?p = "\<lparr>cacheControl = Some NoStore, invalidates = None\<rparr>"
  have c: "cacheControl ?p = Some NoStore" by simp
  have n: "\<not> (\<exists>pre suf. ascii ''Get sprint details.'' = pre @ suf \<and> cache_control_annotation suf)"
  proof
    assume "\<exists>pre suf. ascii ''Get sprint details.'' = pre @ suf \<and> cache_control_annotation suf"
    then obtain pre ws w body where
      "ascii ''Get sprint details.'' = pre @ ascii ''[Cache-Control:'' @ ws @ w # body @ ascii '']''"
      unfolding cache_control_annotation_def by blast
    then have "last (ascii ''Get sprint details.'')
        = last (pre @ ascii ''[Cache-Control:'' @ ws @ w # body @ ascii '']'')"
      by simp
    then show False by (simp add: ascii_def)
  qed
  then have n': "\<not> (\<exists>pre suf. (case description ?tool of None \<Rightarrow> [] | Some x \<Rightarrow> x) = pre @ suf
              \<and> cache_control_annotation suf)"
    by simp
  from decorateDescription_appends [OF c n'] have
    "decorateDescription ?tool (Some ?p) =
       ?tool\<lparr>description := Some (ascii ''Get sprint details.''
         @ ascii '' [Cache-Control: '' @ directive_text NoStore @ ascii '']'')\<rparr>"
    by simp
  then have "decorateDescription ?tool (Some ?p) =
      \<lparr>name = ascii ''sprints.get'',
       description = Some (ascii ''Get sprint details. [Cache-Control: no-store]''),
       inputSchema = (), annotations = None\<rparr>"
    by (simp add: ascii_def)
  with c n show ?thesis by blast
qed

text \<open>
  C8, as the claim states it, fails. The description below ends with neither of the two
  emitted annotations, yet decoration does not keep it whole: the trailing
  \<^verbatim>\<open> [Cache-Control: max-age=60]\<close> is taken for an earlier annotation and replaced.
\<close>

theorem decorateDescription_strips_other_annotation:
  "\<not> suffix (ascii '' [Cache-Control: no-store]'') (ascii ''Docs [Cache-Control: max-age=60]'')
   \<and> \<not> suffix (ascii '' [Cache-Control: immutable]'') (ascii ''Docs [Cache-Control: max-age=60]'')
   \<and> description (decorateDescription
        \<lparr>name = ascii ''docs'', description = Some (ascii ''Docs [Cache-Control: max-age=60]''),
         inputSchema = (), annotations = None\<rparr>
        (Some \<lparr>cacheControl = Some NoStore, invalidates = None\<rparr>))
      = Some (ascii ''Docs [Cache-Control: no-store]'')
   \<and> description (decorateDescription
        \<lparr>name = ascii ''docs'', description = Some (ascii ''Docs [Cache-Control: max-age=60]''),
         inputSchema = (), annotations = None\<rparr>
        (Some \<lparr>cacheControl = Some NoStore, invalidates = None\<rparr>))
      \<noteq> Some (ascii ''Docs [Cache-Control: max-age=60]'' @ ascii '' [Cache-Control: no-store]'')"
  by (simp add: decorate_eval suffix_to_prefix)

text \<open>
  C4 on a description that ends with a space. The first decoration gives
  \<^verbatim>\<open>foo  [Cache-Control: no-store]\<close>, with the description's own space and the space
  of the annotation. The second one strips the annotation together with all white space
  before it, since the pattern starts with \<^verbatim>\<open>\s*\<close>, and gives
  \<^verbatim>\<open>foo [Cache-Control: no-store]\<close>: decorating twice with the same policy is not
  decorating once.
\<close>

theorem decorateDescription_twice_trailing_space:
  "description (decorateDescription
      \<lparr>name = ascii ''t'', description = Some (ascii ''foo ''),
       inputSchema = (), annotations = None\<rparr>
      (Some \<lparr>cacheControl = Some NoStore, invalidates = None\<rparr>))
     = Some (ascii ''foo  [Cache-Control: no-store]'')
   \<and> description (decorateDescription
      (decorateDescription
        \<lparr>name = ascii ''t'', description = Some (ascii ''foo ''),
         inputSchema = (), annotations = None\<rparr>
        (Some \<lparr>cacheControl = Some NoStore, invalidates = None\<rparr>))
      (Some \<lparr>cacheControl = Some NoStore, invalidates = None\<rparr>))
     = Some (ascii ''foo [Cache-Control: no-store]'')
   \<and> ascii ''foo [Cache-Control: no-store]'' \<noteq> ascii ''foo  [Cache-Control: no-store]''"
  by (simp add: decorate_eval)

text \<open>
  Where the two halves of C4 do hold: on a description that has no \<^verbatim>\<open>[\<close> in it and
  does not end with white space (the descriptions of the tests are such). Decorating
  gives the description followed by the annotation, and decorating the result again,
  with the same or with another directive, gives the description followed by the
  annotation of the second policy alone.
\<close>

lemma replace_first_prefix:
  "rx_match r suf = Some [] \<Longrightarrow>
   \<forall>a b. D = a @ b \<longrightarrow> b \<noteq> [] \<longrightarrow> rx_match r (b @ suf) = None \<Longrightarrow>
   replace_first r [] (D @ suf) = D"
proof (induction D)
  case Nil
  then show ?case by (cases suf) simp_all
next
  case (Cons x xs)
  from Cons.prems(2) have here: "rx_match r ((x # xs) @ suf) = None"
    by (metis append_Nil list.distinct(1))
  have "\<forall>a b. xs = a @ b \<longrightarrow> b \<noteq> [] \<longrightarrow> rx_match r (b @ suf) = None"
    using Cons.prems(2) by (metis append_Cons)
  with Cons.IH Cons.prems(1) have "replace_first r [] (xs @ suf) = xs" by blast
  with here show ?case by simp
qed

lemma emitted_annotation_matches:
  "rx_match CACHE_CONTROL_PATTERN
     (ascii '' [Cache-Control: '' @ directive_text d @ ascii '']'') = Some []"
  by (cases d) (simp_all add: CACHE_CONTROL_PATTERN_def js_whitespace_def js_word_char_def ascii_def)

lemma whitespace_not_bracket: "js_whitespace c \<Longrightarrow> c \<noteq> of_char CHR ''[''"
  by (auto simp: js_whitespace_def)

lemma no_match_before_annotation:
  assumes nb: "of_char CHR ''['' \<notin> set b" and ne: "b \<noteq> []"
    and nw: "\<not> js_whitespace (last b)"
  shows "rx_match CACHE_CONTROL_PATTERN
           (b @ ascii '' [Cache-Control: '' @ directive_text d @ ascii '']'') = None"
proof (rule ccontr)
  let ?lb = "of_char CHR ''['' :: jschar"
  let ?rest = "ascii ''Cache-Control: '' @ directive_text d @ ascii '']''"
  assume "rx_match CACHE_CONTROL_PATTERN
           (b @ ascii '' [Cache-Control: '' @ directive_text d @ ascii '']'') \<noteq> None"
  then obtain rest where "rx_match CACHE_CONTROL_PATTERN
           (b @ ascii '' [Cache-Control: '' @ directive_text d @ ascii '']'') = Some rest"
    by auto
  from CACHE_CONTROL_PATTERN_match [OF this] obtain ws t where
    st: "b @ ascii '' [Cache-Control: '' @ directive_text d @ ascii '']'' = ws @ t"
    and ws: "list_all js_whitespace ws" and t: "cache_control_annotation t"
    by blast
  from t obtain t' where t': "t = ?lb # t'"
    unfolding cache_control_annotation_def by (auto simp: ascii_def)
  have lhs: "b @ ascii '' [Cache-Control: '' @ directive_text d @ ascii '']''
      = (b @ [of_char CHR '' '']) @ ?lb # ?rest"
    by (simp add: ascii_def)
  have l: "takeWhile (\<lambda>c. c \<noteq> ?lb) ((b @ [of_char CHR '' '']) @ ?lb # ?rest) = b @ [of_char CHR '' '']"
    using nb by (intro takeWhile_tail [THEN trans] takeWhile_eq_all_conv [THEN iffD2]) auto
  have r: "takeWhile (\<lambda>c. c \<noteq> ?lb) (ws @ ?lb # t') = ws"
    using ws whitespace_not_bracket
    by (intro takeWhile_tail [THEN trans] takeWhile_eq_all_conv [THEN iffD2])
       (auto simp: list_all_iff)
  from st lhs t' l r have "ws = b @ [of_char CHR '' '']" by simp
  with ws have "list_all js_whitespace b" by simp
  with ne have "js_whitespace (last b)" by (simp add: list_all_iff)
  with nw show False by contradiction
qed

lemma decorateDescription_plain:
  assumes p: "cacheControl p = Some d" and q: "cacheControl q = Some d'"
    and nb: "of_char CHR ''['' \<notin> set (case description tool of None \<Rightarrow> [] | Some x \<Rightarrow> x)"
    and nw: "(case description tool of None \<Rightarrow> [] | Some x \<Rightarrow> x) = []
             \<or> \<not> js_whitespace (last (case description tool of None \<Rightarrow> [] | Some x \<Rightarrow> x))"
  shows "description (decorateDescription tool (Some p)) =
           Some ((case description tool of None \<Rightarrow> [] | Some x \<Rightarrow> x)
                 @ ascii '' [Cache-Control: '' @ directive_text d @ ascii '']'')"
    and "description (decorateDescription (decorateDescription tool (Some p)) (Some q)) =
           Some ((case description tool of None \<Rightarrow> [] | Some x \<Rightarrow> x)
                 @ ascii '' [Cache-Control: '' @ directive_text d' @ ascii '']'')"
proof -
  let ?D = "case description tool of None \<Rightarrow> [] | Some x \<Rightarrow> x"
  let ?sfx = "\<lambda>x. ascii '' [Cache-Control: '' @ directive_text x @ ascii '']''"
  have "\<not> (\<exists>pre suf. ?D = pre @ suf \<and> cache_control_annotation suf)"
  proof
    assume "\<exists>pre suf. ?D = pre @ suf \<and> cache_control_annotation suf"
    then obtain pre t where "?D = pre @ of_char CHR ''['' # t"
      unfolding cache_control_annotation_def by (auto simp: ascii_def)
    then have "of_char CHR ''['' \<in> set ?D" by simp
    with nb show False by contradiction
  qed
  then have "replace_first CACHE_CONTROL_PATTERN [] ?D = ?D"
    by (intro replace_first_unchanged no_annotation_no_match)
  with p show once: "description (decorateDescription tool (Some p)) = Some (?D @ ?sfx d)"
    by (simp add: decorateDescription_def)
  have "\<forall>a b. ?D = a @ b \<longrightarrow> b \<noteq> []
          \<longrightarrow> rx_match CACHE_CONTROL_PATTERN (b @ ?sfx d) = None"
  proof (intro allI impI)
    fix a b assume ab: "?D = a @ b" and ne: "b \<noteq> []"
    from ab nb have 1: "of_char CHR ''['' \<notin> set b" by simp
    from ab ne have "last ?D = last b" "?D \<noteq> []" by simp_all
    with nw have 2: "\<not> js_whitespace (last b)" by simp
    from 1 ne 2 show "rx_match CACHE_CONTROL_PATTERN (b @ ?sfx d) = None"
      by (rule no_match_before_annotation)
  qed
  with emitted_annotation_matches [of d]
  have "replace_first CACHE_CONTROL_PATTERN [] (?D @ ?sfx d) = ?D"
    by (rule replace_first_prefix)
  with once q show "description (decorateDescription (decorateDescription tool (Some p)) (Some q))
      = Some (?D @ ?sfx d')"
    by (simp add: decorateDescription_def)
qed

subsection \<open>The repository's tests, on the model\<close>

text \<open>
  The assertions of the test files, evaluated on the definitions above: each holds as
  the test expects it.
\<close>

lemma test_GlobMatcher:
  "matchGlob (ascii ''sprints.get'') (ascii ''sprints.get'')"
  "\<not> matchGlob (ascii ''sprints.get'') (ascii ''sprints.update'')"
  "matchGlob (ascii ''sprints.*'') (ascii ''sprints.get'')"
  "matchGlob (ascii ''*.get'') (ascii ''tasks.get'')"
  "\<not> matchGlob (ascii ''sprints.*'') (ascii ''sprints.tasks.get'')"
  "matchGlob (ascii ''**'') (ascii ''a.b.c.d'')"
  "matchGlob (ascii ''**'') (ascii ''single'')"
  "matchGlob (ascii ''sprints.**'') (ascii ''sprints.tasks.get'')"
  "matchGlob (ascii ''sprints.**'') (ascii ''sprints'')"
  "matchGlob (ascii ''**.get'') (ascii ''a.b.c.get'')"
  "\<not> matchGlob (ascii ''**.get'') (ascii ''a.b.c.update'')"
  "\<not> matchGlob (ascii ''a.b.c'') (ascii ''a.b'')"
  by (simp_all add: matchGlob_spec ascii_def)

lemma test_PolicyValidator:
  "PolicyEngine_new
     [\<lparr>raw_match = JStr [], raw_cacheControl = JUndefined, raw_invalidates = JUndefined\<rparr>] None
   = Inl (MatchNotNonEmptyString 0)"
  "PolicyEngine_new
     [\<lparr>raw_match = JStr (ascii ''sprints.@invalid''), raw_cacheControl = JUndefined,
       raw_invalidates = JUndefined\<rparr>] None
   = Inl (InvalidSegment 0 (ascii ''@invalid''))"
  "PolicyEngine_new
     [\<lparr>raw_match = JStr (ascii ''sprints.*''), raw_cacheControl = JStr (ascii ''max-age=300''),
       raw_invalidates = JUndefined\<rparr>] None
   = Inl (InvalidCacheControl 0 (JStr (ascii ''max-age=300'')))"
  "PolicyEngine_new
     [\<lparr>raw_match = JStr (ascii ''sprints.update''), raw_cacheControl = JUndefined,
       raw_invalidates = JStr (ascii ''sprints.*'')\<rparr>] None
   = Inl (InvalidatesNotArray 0)"
  "PolicyEngine_new
     [\<lparr>raw_match = JStr (ascii ''sprints.update''), raw_cacheControl = JUndefined,
       raw_invalidates = JArr [JStr []]\<rparr>] None
   = Inl (InvalidatesEntryNotNonEmptyString 0)"
  "PolicyEngine_new [] (Some \<lparr>raw_default_cacheControl = JStr (ascii ''max-age=60'')\<rparr>)
   = Inl (InvalidDefaultCacheControl (JStr (ascii ''max-age=60'')))"
  "\<not> isl (PolicyEngine_new
     [\<lparr>raw_match = JStr (ascii ''sprints.*''), raw_cacheControl = JStr (ascii ''no-store''),
       raw_invalidates = JUndefined\<rparr>,
      \<lparr>raw_match = JStr (ascii ''countries.**''), raw_cacheControl = JStr (ascii ''immutable''),
       raw_invalidates = JUndefined\<rparr>,
      \<lparr>raw_match = JStr (ascii ''tasks.update''), raw_cacheControl = JUndefined,
       raw_invalidates = JArr [JStr (ascii ''tasks.*''), JStr (ascii ''sprints.*'')]\<rparr>,
      \<lparr>raw_match = JStr (ascii ''**''), raw_cacheControl = JUndefined,
       raw_invalidates = JUndefined\<rparr>] None)"
  by (simp_all add: config_eval)

lemma test_PolicyEngine:
  "resolve \<lparr>policies = [\<lparr>cacheControl = Some NoStore, invalidates = None,
                          match = ascii ''sprints.*''\<rparr>],
           defaultCacheControl = Some Immutable, cache = Map.empty\<rparr> [] (ascii ''tasks.get'')
   = (Some 0,
      \<lparr>policies = [\<lparr>cacheControl = Some NoStore, invalidates = None,
                     match = ascii ''sprints.*''\<rparr>],
       defaultCacheControl = Some Immutable, cache = [ascii ''tasks.get'' \<mapsto> Some 0]\<rparr>,
      [\<lparr>cacheControl = Some Immutable, invalidates = None\<rparr>])"
  "fst (resolve \<lparr>policies = [\<lparr>cacheControl = Some NoStore, invalidates = None,
                               match = ascii ''sprints.*''\<rparr>],
                defaultCacheControl = None, cache = Map.empty\<rparr> [] (ascii ''tasks.get''))
   = None"
  "fst (resolve \<lparr>policies = [\<lparr>cacheControl = None, invalidates = None,
                               match = ascii ''sprints.*''\<rparr>],
                defaultCacheControl = None, cache = Map.empty\<rparr> [] (ascii ''sprints.get''))
   = None"
  "resolve \<lparr>policies = [\<lparr>cacheControl = None, invalidates = Some [ascii ''sprints.*''],
                          match = ascii ''sprints.update''\<rparr>],
           defaultCacheControl = Some NoStore, cache = Map.empty\<rparr> [] (ascii ''sprints.update'')
   = (Some 0,
      \<lparr>policies = [\<lparr>cacheControl = None, invalidates = Some [ascii ''sprints.*''],
                     match = ascii ''sprints.update''\<rparr>],
       defaultCacheControl = Some NoStore, cache = [ascii ''sprints.update'' \<mapsto> Some 0]\<rparr>,
      [\<lparr>cacheControl = Some NoStore, invalidates = Some [ascii ''sprints.*'']\<rparr>])"
  by (simp_all add: engine_eval)

lemma test_DescriptionDecorator:
  "description (decorateDescription
      \<lparr>name = ascii ''sprints.get'', description = Some (ascii ''Get sprint details.''),
       inputSchema = (), annotations = None\<rparr>
      (Some \<lparr>cacheControl = Some Immutable, invalidates = None\<rparr>))
   = Some (ascii ''Get sprint details. [Cache-Control: immutable]'')"
  "decorateDescription tool None = tool"
  "decorateDescription tool (Some \<lparr>cacheControl = None, invalidates = Some [ascii ''sprints.*'']\<rparr>)
   = tool"
  "description (decorateDescription
      \<lparr>name = ascii ''test'', description = None, inputSchema = (), annotations = None\<rparr>
      (Some \<lparr>cacheControl = Some NoStore, invalidates = None\<rparr>))
   = Some (ascii '' [Cache-Control: no-store]'')"
  "description (decorateDescription
      (decorateDescription
        \<lparr>name = ascii ''sprints.get'', description = Some (ascii ''Get sprint details.''),
         inputSchema = (), annotations = None\<rparr>
        (Some \<lparr>cacheControl = Some NoStore, invalidates = None\<rparr>))
      (Some \<lparr>cacheControl = Some NoStore, invalidates = None\<rparr>))
   = Some (ascii ''Get sprint details. [Cache-Control: no-store]'')"
  "description (decorateDescription
      (decorateDescription
        \<lparr>name = ascii ''sprints.get'', description = Some (ascii ''Get sprint details.''),
         inputSchema = (), annotations = None\<rparr>
        (Some \<lparr>cacheControl = Some NoStore, invalidates = None\<rparr>))
      (Some \<lparr>cacheControl = Some Immutable, invalidates = None\<rparr>))
   = Some (ascii ''Get sprint details. [Cache-Control: immutable]'')"
  by (simp_all add: decorate_eval)

text \<open>
  The end-to-end case of the specification: the rule
  \<^verbatim>\<open>{match: 'sprints.update', invalidates: ['sprints.*']}\<close> with the default
  \<^verbatim>\<open>no-store\<close>. A successful call gets the notice as its first block; a failed call
  is returned as it is.
\<close>

lemma test_end_to_end:
  "fst (callTool_handler
     \<lparr>policies = [\<lparr>cacheControl = None, invalidates = Some [ascii ''sprints.*''],
                    match = ascii ''sprints.update''\<rparr>],
      defaultCacheControl = Some NoStore, cache = Map.empty\<rparr> [] (ascii ''sprints.update'')
     \<lparr>content = [b], isError = None\<rparr>)
   = \<lparr>content =
        [\<lparr>type = ascii ''text'',
          props = [(ascii ''text'',
            JStr (ascii ''[System: Cache invalidated for sprints.* '' @ [EM_DASH]
                  @ ascii '' caused by sprints.update]''))]\<rparr>, b],
      isError = None\<rparr>"
  "fst (callTool_handler
     \<lparr>policies = [\<lparr>cacheControl = None, invalidates = Some [ascii ''sprints.*''],
                    match = ascii ''sprints.update''\<rparr>],
      defaultCacheControl = Some NoStore, cache = Map.empty\<rparr> [] (ascii ''sprints.update'')
     \<lparr>content = [b], isError = Some True\<rparr>)
   = \<lparr>content = [b], isError = Some True\<rparr>"
  by (simp_all add: callTool_handler_def resolveInvalidations_def decorateResponse_def
      engine_eval Let_def)


end
